theory Spec2Isabelle
  imports
    Main
    "HOL-Library.Word"
    "HOL-Library.Signed_Division"
    "HOL-Library.Monad_Syntax"
    "HOL-Library.Sublist"
begin

unbundle bit_operations_syntax

section \<open>Data model of lpmtrie.go\<close>

text \<open>
  Go's \<open>int\<close> values that occur here (prefix lengths, byte indices, the key size) are all
  bounded by the validated \<open>maxPrefixLen\<close>, so they are modelled as \<open>int\<close>; the
  \<open>int64\<close> entry counter, which is only ever incremented and decremented, is a
  \<open>64 word\<close> and wraps as \<open>atomic.AddInt64\<close> does. A panic (invalid key, index out
  of range) is the value \<open>None\<close>.
\<close>

type_synonym byte = "8 word"

record Key =
  PrefixLen :: int
  Data :: "byte list"

text \<open>
  A \<open>*lpmTrieNode\<close>: \<open>nilNode\<close> or a node with its embedded key, its two child
  pointers, its value (an \<open>interface{}\<close>, \<open>None\<close> being Go's \<open>nil\<close>) and its
  intermediate flag. Every node is allocated by \<open>newLpmTrieNode\<close> and stored in exactly
  one slot, so the pointer structure is a tree.
\<close>

datatype 'v lpmTrieNode =
  nilNode
  | Node (nkey: Key) (child0: "'v lpmTrieNode") (child1: "'v lpmTrieNode")
      (val: "'v option") (isIm: bool)

record 'v lpmTrie =
  root :: "'v lpmTrieNode"
  size_cnt :: "64 word"
  maxPrefixLen :: int
  keySize :: int

text \<open>
  A slot (\<open>*unsafe.Pointer\<close>) is \<open>&t.root\<close> or \<open>&node.child[b]\<close>; it is modelled by
  the list of child indices that leads from the root slot to it.
\<close>

type_synonym slot = "byte list"

definition newLpmTrieNode :: "Key \<Rightarrow> 'v option \<Rightarrow> 'v lpmTrieNode" where
  "newLpmTrieNode key v = Node key nilNode nilNode v False"

definition child :: "'v lpmTrieNode \<Rightarrow> byte \<Rightarrow> 'v lpmTrieNode" where
  "child n b = (if b = 0 then child0 n else child1 n)"

fun loadPointer :: "'v lpmTrieNode \<Rightarrow> slot \<Rightarrow> 'v lpmTrieNode" where
  "loadPointer n [] = n"
| "loadPointer nilNode (b # bs) = nilNode"
| "loadPointer (Node k c0 c1 v im) (b # bs) = loadPointer (if b = 0 then c0 else c1) bs"

fun storePointer :: "'v lpmTrieNode \<Rightarrow> slot \<Rightarrow> 'v lpmTrieNode \<Rightarrow> 'v lpmTrieNode" where
  "storePointer n [] new = new"
| "storePointer nilNode (b # bs) new = nilNode"
| "storePointer (Node k c0 c1 v im) (b # bs) new =
     (if b = 0 then Node k (storePointer c0 bs new) c1 v im
      else Node k c0 (storePointer c1 bs new) v im)"

section \<open>Construction, size and key validation\<close>

definition New :: "int \<Rightarrow> string + 'v lpmTrie" where
  "New maxPrefixLen' =
     (if maxPrefixLen' \<le> 0 \<or> maxPrefixLen' smod 8 \<noteq> 0
      then Inl ''maxPrefixLen must be positive and be times of 8''
      else Inr \<lparr>root = nilNode, size_cnt = 0, maxPrefixLen = maxPrefixLen',
                keySize = maxPrefixLen' sdiv 8\<rparr>)"

definition Size :: "'v lpmTrie \<Rightarrow> 64 word" where
  "Size t = size_cnt t"

definition isValidKey :: "'v lpmTrie \<Rightarrow> Key \<Rightarrow> bool" where
  "isValidKey t key \<longleftrightarrow>
     0 \<le> PrefixLen key \<and> PrefixLen key \<le> maxPrefixLen t \<and> int (length (Data key)) = keySize t"

definition checkKey :: "'v lpmTrie \<Rightarrow> Key \<Rightarrow> unit option" where
  "checkKey t key = (if \<not> isValidKey t key then None else Some ())"

section \<open>Bit primitives\<close>

definition extractBit :: "byte list \<Rightarrow> int \<Rightarrow> byte option" where
  "extractBit data index =
     (let j = index sdiv 8 in
      if 0 \<le> j \<and> j < int (length data)
      then Some (drop_bit (nat (7 - index smod 8)) (data ! nat j) AND 1)
      else None)"

definition min_int :: "int \<Rightarrow> int \<Rightarrow> int" where
  "min_int a b = (if a < b then a else b)"

text \<open>
  \<open>math/bits\<close>: the number of leading zero bits of a word, its width for the word 0.
  \<open>word_bits\<close> lists the bits of a word, the most significant one first.
\<close>

definition word_bits :: "'a::len word \<Rightarrow> bool list" where
  "word_bits x = map (bit x) (rev [0..<LENGTH('a)])"

definition leading_zeros :: "'a::len word \<Rightarrow> nat" where
  "leading_zeros x = length (takeWhile Not (word_bits x))"

definition LeadingZeros32 :: "32 word \<Rightarrow> int" where
  "LeadingZeros32 x = int (leading_zeros x)"

definition LeadingZeros16 :: "16 word \<Rightarrow> int" where
  "LeadingZeros16 x = int (leading_zeros x)"

definition LeadingZeros8 :: "8 word \<Rightarrow> int" where
  "LeadingZeros8 x = int (leading_zeros x)"

text \<open>
  A slice expression \<open>data[i:j]\<close> and an index expression \<open>data[i]\<close>. Go checks a
  slice bound against the capacity; the capacity is taken to be the length, which is what
  \<open>checkKey\<close> compares with \<open>keySize\<close>.
\<close>

definition slice :: "byte list \<Rightarrow> int \<Rightarrow> int \<Rightarrow> byte list option" where
  "slice data i j =
     (if 0 \<le> i \<and> i \<le> j \<and> j \<le> int (length data)
      then Some (take (nat (j - i)) (drop (nat i) data)) else None)"

definition index :: "byte list \<Rightarrow> int \<Rightarrow> byte option" where
  "index data i = (if 0 \<le> i \<and> i < int (length data) then Some (data ! nat i) else None)"

text \<open>\<open>encoding/binary\<close>: big-endian reads of the first four and two bytes.\<close>

definition Uint32 :: "byte list \<Rightarrow> 32 word option" where
  "Uint32 b =
     (if length b < 4 then None
      else Some (ucast (b ! 3) OR push_bit 8 (ucast (b ! 2)) OR push_bit 16 (ucast (b ! 1))
                 OR push_bit 24 (ucast (b ! 0))))"

definition Uint16 :: "byte list \<Rightarrow> 16 word option" where
  "Uint16 b =
     (if length b < 2 then None
      else Some (ucast (b ! 1) OR push_bit 8 (ucast (b ! 0))))"

text \<open>
  The 32-bit loop of \<open>longestPrefixMatch\<close> either returns from the function or falls
  through to the 16-bit step with the running \<open>prefixlen\<close> and \<open>i\<close>.
\<close>

datatype lpm_step = Return int | Continue int int

function lpm_loop32 ::
  "int \<Rightarrow> byte list \<Rightarrow> byte list \<Rightarrow> int \<Rightarrow> int \<Rightarrow> int \<Rightarrow> lpm_step option" where
  "lpm_loop32 ks nd kd limit prefixlen i =
     (if ks \<ge> i + 4 then
        do {
          a \<leftarrow> Option.bind (slice nd i (i + 4)) Uint32;
          b \<leftarrow> Option.bind (slice kd i (i + 4)) Uint32;
          let diff = a XOR b;
          let prefixlen = prefixlen + LeadingZeros32 diff;
          if prefixlen \<ge> limit then Some (Return limit)
          else if diff \<noteq> 0 then Some (Return prefixlen)
          else lpm_loop32 ks nd kd limit prefixlen (i + 4)
        }
      else Some (Continue prefixlen i))"
  by pat_completeness auto
termination
  by (relation "measure (\<lambda>(ks, nd, kd, limit, prefixlen, i). nat (ks - i))") auto

definition lpm_step16 ::
  "int \<Rightarrow> byte list \<Rightarrow> byte list \<Rightarrow> int \<Rightarrow> int \<Rightarrow> int \<Rightarrow> lpm_step option" where
  "lpm_step16 ks nd kd limit prefixlen i =
     (if ks \<ge> i + 2 then
        do {
          a \<leftarrow> Option.bind (slice nd i (i + 2)) Uint16;
          b \<leftarrow> Option.bind (slice kd i (i + 2)) Uint16;
          let diff = a XOR b;
          let prefixlen = prefixlen + LeadingZeros16 diff;
          if prefixlen \<ge> limit then Some (Return limit)
          else if diff \<noteq> 0 then Some (Return prefixlen)
          else Some (Continue prefixlen (i + 2))
        }
      else Some (Continue prefixlen i))"

definition lpm_step8 ::
  "int \<Rightarrow> byte list \<Rightarrow> byte list \<Rightarrow> int \<Rightarrow> int \<Rightarrow> int \<Rightarrow> int option" where
  "lpm_step8 ks nd kd limit prefixlen i =
     (if ks \<ge> i + 1 then
        do {
          a \<leftarrow> index nd i;
          b \<leftarrow> index kd i;
          let diff = a XOR b;
          let prefixlen = prefixlen + LeadingZeros8 diff;
          if prefixlen \<ge> limit then Some limit
          else Some prefixlen
        }
      else Some prefixlen)"

definition longestPrefixMatch :: "'v lpmTrie \<Rightarrow> Key \<Rightarrow> Key \<Rightarrow> int option" where
  "longestPrefixMatch t node key =
     (let limit = min_int (PrefixLen node) (PrefixLen key) in
      do {
        r32 \<leftarrow> lpm_loop32 (keySize t) (Data node) (Data key) limit 0 0;
        case r32 of
          Return r \<Rightarrow> Some r
        | Continue prefixlen i \<Rightarrow>
            do {
              r16 \<leftarrow> lpm_step16 (keySize t) (Data node) (Data key) limit prefixlen i;
              case r16 of
                Return r \<Rightarrow> Some r
              | Continue prefixlen i \<Rightarrow>
                  lpm_step8 (keySize t) (Data node) (Data key) limit prefixlen i
            }
      })"

section \<open>Lookup\<close>

text \<open>
  The loop of \<open>Lookup\<close>; it yields the node whose value is returned (\<open>nilNode\<close> when
  nothing was found). \<open>found\<close> is the best match so far.
\<close>

fun lookup_loop ::
  "'v lpmTrie \<Rightarrow> Key \<Rightarrow> 'v lpmTrieNode \<Rightarrow> 'v lpmTrieNode \<Rightarrow> 'v lpmTrieNode option" where
  "lookup_loop t key nilNode found = Some found"
| "lookup_loop t key (Node k c0 c1 v im) found =
     do {
       matchlen \<leftarrow> longestPrefixMatch t k key;
       if matchlen = maxPrefixLen t then Some (Node k c0 c1 v im)
       else if matchlen < PrefixLen k then Some found
       else
         do {
           b \<leftarrow> extractBit (Data key) (PrefixLen k);
           lookup_loop t key (if b = 0 then c0 else c1)
             (if \<not> im then Node k c0 c1 v im else found)
         }
     }"

definition Lookup :: "'v lpmTrie \<Rightarrow> Key \<Rightarrow> ('v option \<times> bool) option" where
  "Lookup t key =
     do {
       _ \<leftarrow> checkKey t key;
       found \<leftarrow> lookup_loop t key (root t) nilNode;
       case found of
         nilNode \<Rightarrow> Some (None, False)
       | Node k c0 c1 v im \<Rightarrow> Some (v, True)
     }"

section \<open>Update\<close>

text \<open>
  The descent of \<open>Update\<close>: the slot it stops at, the node in that slot and the last
  match length.
\<close>

fun update_loop ::
  "'v lpmTrie \<Rightarrow> Key \<Rightarrow> 'v lpmTrieNode \<Rightarrow> slot \<Rightarrow> int \<Rightarrow> (slot \<times> 'v lpmTrieNode \<times> int) option"
  where
  "update_loop t key nilNode slot matchlen = Some (slot, nilNode, matchlen)"
| "update_loop t key (Node k c0 c1 v im) slot matchlen =
     do {
       matchlen \<leftarrow> longestPrefixMatch t k key;
       if PrefixLen k \<noteq> matchlen \<or> PrefixLen k = PrefixLen key \<or> PrefixLen k = maxPrefixLen t
       then Some (slot, Node k c0 c1 v im, matchlen)
       else
         do {
           b \<leftarrow> extractBit (Data key) (PrefixLen k);
           update_loop t key (if b = 0 then c0 else c1) (slot @ [b]) matchlen
         }
     }"

definition Update :: "'v lpmTrie \<Rightarrow> Key \<Rightarrow> 'v option \<Rightarrow> ('v lpmTrie \<times> bool) option" where
  "Update t key v =
     do {
       _ \<leftarrow> checkKey t key;
       let t = t\<lparr>size_cnt := size_cnt t + 1\<rparr>;
       let newnode = newLpmTrieNode key v;
       (slot, node, matchlen) \<leftarrow> update_loop t key (root t) [] 0;
       case node of
         nilNode \<Rightarrow> Some (t\<lparr>root := storePointer (root t) slot newnode\<rparr>, False)
       | Node k c0 c1 nv im \<Rightarrow>
           if PrefixLen k = matchlen then
             (let newnode = Node key c0 c1 v False;
                  t = (if \<not> im then t\<lparr>size_cnt := size_cnt t - 1\<rparr> else t)
              in Some (t\<lparr>root := storePointer (root t) slot newnode\<rparr>, True))
           else
             do {
               nextBit \<leftarrow> extractBit (Data key) matchlen;
               let imNode =
                 (if nextBit \<noteq> 0
                  then Node (key\<lparr>PrefixLen := matchlen\<rparr>) node newnode None True
                  else Node (key\<lparr>PrefixLen := matchlen\<rparr>) newnode node None True);
               Some (t\<lparr>root := storePointer (root t) slot imNode\<rparr>, False)
             }
     }"

section \<open>Delete\<close>

text \<open>
  The descent of \<open>Delete\<close>: the parent of the node it stops at (\<open>nilNode\<close> at the
  root), the slot \<open>trim\<close> of that node, the slot \<open>trim2\<close> of the parent, the node and
  the last match length.
\<close>

fun delete_loop ::
  "'v lpmTrie \<Rightarrow> Key \<Rightarrow> 'v lpmTrieNode \<Rightarrow> 'v lpmTrieNode \<Rightarrow> slot \<Rightarrow> slot \<Rightarrow> int \<Rightarrow>
     ('v lpmTrieNode \<times> slot \<times> slot \<times> 'v lpmTrieNode \<times> int) option" where
  "delete_loop t key nilNode parent trim trim2 matchlen =
     Some (parent, trim, trim2, nilNode, matchlen)"
| "delete_loop t key (Node k c0 c1 v im) parent trim trim2 matchlen =
     do {
       matchlen \<leftarrow> longestPrefixMatch t k key;
       if PrefixLen k \<noteq> matchlen \<or> PrefixLen k = PrefixLen key
       then Some (parent, trim, trim2, Node k c0 c1 v im, matchlen)
       else
         do {
           b \<leftarrow> extractBit (Data key) (PrefixLen k);
           delete_loop t key (if b = 0 then c0 else c1) (Node k c0 c1 v im)
             (trim @ [b]) trim matchlen
         }
     }"

text \<open>
  \<open>node == loadPointer(&parent.child[0])\<close> compares pointers: \<open>node\<close> was loaded from
  \<open>trim\<close>, a child slot of \<open>parent\<close>, so it is the slot index that is compared.
\<close>

definition Delete :: "'v lpmTrie \<Rightarrow> Key \<Rightarrow> ('v lpmTrie \<times> bool) option" where
  "Delete t key =
     do {
       _ \<leftarrow> checkKey t key;
       (parent, trim, trim2, node, matchlen) \<leftarrow> delete_loop t key (root t) nilNode [] [] 0;
       case node of
         nilNode \<Rightarrow> Some (t, False)
       | Node k c0 c1 v im \<Rightarrow>
           if PrefixLen k \<noteq> PrefixLen key \<or> PrefixLen k \<noteq> matchlen \<or> im then Some (t, False)
           else
             (let t = t\<lparr>size_cnt := size_cnt t - 1\<rparr> in
              if c0 \<noteq> nilNode \<and> c1 \<noteq> nilNode
              then Some (t\<lparr>root := storePointer (root t) trim (Node k c0 c1 None True)\<rparr>, True)
              else if parent \<noteq> nilNode \<and> isIm parent \<and> c0 = nilNode \<and> c1 = nilNode
              then
                (if last trim = 0
                 then Some (t\<lparr>root := storePointer (root t) trim2 (child1 parent)\<rparr>, True)
                 else Some (t\<lparr>root := storePointer (root t) trim2 (child0 parent)\<rparr>, True))
              else if c0 \<noteq> nilNode
              then Some (t\<lparr>root := storePointer (root t) trim c0\<rparr>, True)
              else if c1 \<noteq> nilNode
              then Some (t\<lparr>root := storePointer (root t) trim c1\<rparr>, True)
              else Some (t\<lparr>root := storePointer (root t) trim nilNode\<rparr>, True))
     }"

section \<open>Range\<close>

text \<open>
  The visitor is a Go closure; its effects are a state \<open>'s\<close> that it takes and returns
  together with its boolean result. \<open>Range_trie\<close> is the method \<open>Range\<close>.
\<close>

fun traverse ::
  "(Key \<Rightarrow> 'v option \<Rightarrow> 's \<Rightarrow> bool \<times> 's) \<Rightarrow> 'v lpmTrieNode \<Rightarrow> 's \<Rightarrow> bool \<times> 's" where
  "traverse fn nilNode s = (False, s)"
| "traverse fn (Node k c0 c1 v im) s =
     (case traverse fn c0 s of
        (True, s1) \<Rightarrow> (True, s1)
      | (False, s1) \<Rightarrow>
          if im then traverse fn c1 s1
          else
            (case fn k v s1 of
               (False, s2) \<Rightarrow> (True, s2)
             | (True, s2) \<Rightarrow> traverse fn c1 s2))"

definition Range_trie :: "'v lpmTrie \<Rightarrow> (Key \<Rightarrow> 'v option \<Rightarrow> 's \<Rightarrow> bool \<times> 's) \<Rightarrow> 's \<Rightarrow> 's" where
  "Range_trie t fn s = snd (traverse fn (root t) s)"

section \<open>Reference definitions\<close>

subsection \<open>Bit-by-bit prefix match\<close>

text \<open>
  The bits of a data buffer, bit 0 being the most significant bit of byte 0, and the
  bit-by-bit reference for \<open>longestPrefixMatch\<close>: the index of the first bit at which
  the two buffers differ (the number of bits compared when none differs), capped at
  \<open>limit = min(node.PrefixLen, key.PrefixLen)\<close>.
\<close>

definition key_bits :: "byte list \<Rightarrow> bool list" where
  "key_bits data = concat (map word_bits data)"

definition first_diff_bit :: "byte list \<Rightarrow> byte list \<Rightarrow> nat" where
  "first_diff_bit a b = length (takeWhile (\<lambda>(x, y). x = y) (zip (key_bits a) (key_bits b)))"

definition bitwise_match :: "Key \<Rightarrow> Key \<Rightarrow> int" where
  "bitwise_match node key =
     min (min (PrefixLen node) (PrefixLen key)) (int (first_diff_bit (Data node) (Data key)))"

subsection \<open>Loop invariant of the chunked prefix match\<close>

text \<open>The state of the chunked comparison in front of byte \<open>i\<close>.\<close>

definition lpm_inv :: "int \<Rightarrow> byte list \<Rightarrow> byte list \<Rightarrow> int \<Rightarrow> int \<Rightarrow> int \<Rightarrow> bool" where
  "lpm_inv ks nd kd limit prefixlen i \<longleftrightarrow>
     0 \<le> i \<and> i \<le> ks \<and> take (nat i) nd = take (nat i) kd \<and> prefixlen = 8 * i \<and>
     (prefixlen < limit \<or> i = 0)"

subsection \<open>Well-formed states and call sequences\<close>

text \<open>
  What \<open>New\<close> establishes about the configuration, and the validity of every key stored
  in a tree.
\<close>

definition config_ok :: "'v lpmTrie \<Rightarrow> bool" where
  "config_ok t \<longleftrightarrow> 0 < maxPrefixLen t \<and> maxPrefixLen t = 8 * keySize t"

fun keys_valid :: "'v lpmTrie \<Rightarrow> 'v lpmTrieNode \<Rightarrow> bool" where
  "keys_valid t nilNode = True"
| "keys_valid t (Node k c0 c1 v im) = (isValidKey t k \<and> keys_valid t c0 \<and> keys_valid t c1)"

text \<open>A slot of a tree: every step of the path to it passes through a node.\<close>

fun slot_in :: "'v lpmTrieNode \<Rightarrow> slot \<Rightarrow> bool" where
  "slot_in n [] = True"
| "slot_in nilNode (b # bs) = False"
| "slot_in (Node k c0 c1 v im) (b # bs) = slot_in (if b = 0 then c0 else c1) bs"

text \<open>The number of reachable nodes whose intermediate flag is false.\<close>

fun count_entries :: "'v lpmTrieNode \<Rightarrow> nat" where
  "count_entries nilNode = 0"
| "count_entries (Node k c0 c1 v im) =
     count_entries c0 + (if im then 0 else 1) + count_entries c1"

text \<open>Every reachable intermediate node has both child slots occupied.\<close>

fun im_branching :: "'v lpmTrieNode \<Rightarrow> bool" where
  "im_branching nilNode = True"
| "im_branching (Node k c0 c1 v im) =
     ((im \<longrightarrow> c0 \<noteq> nilNode \<and> c1 \<noteq> nilNode) \<and> im_branching c0 \<and> im_branching c1)"

text \<open>
  Along every path the prefix length of a child is strictly greater than its parent's.
\<close>

fun prefixLen_above :: "int \<Rightarrow> 'v lpmTrieNode \<Rightarrow> bool" where
  "prefixLen_above l nilNode = True"
| "prefixLen_above l (Node k c0 c1 v im) =
     (l < PrefixLen k \<and> prefixLen_above (PrefixLen k) c0 \<and> prefixLen_above (PrefixLen k) c1)"

fun prefixLen_increasing :: "'v lpmTrieNode \<Rightarrow> bool" where
  "prefixLen_increasing nilNode = True"
| "prefixLen_increasing (Node k c0 c1 v im) =
     (prefixLen_above (PrefixLen k) c0 \<and> prefixLen_above (PrefixLen k) c1)"

text \<open>A single-threaded sequence of \<open>Update\<close> and \<open>Delete\<close> calls.\<close>

datatype 'v call = CallUpdate Key "'v option" | CallDelete Key

fun call_key :: "'v call \<Rightarrow> Key" where
  "call_key (CallUpdate key v) = key"
| "call_key (CallDelete key) = key"

fun apply_call :: "'v lpmTrie \<Rightarrow> 'v call \<Rightarrow> 'v lpmTrie option" where
  "apply_call t (CallUpdate key v) = map_option fst (Update t key v)"
| "apply_call t (CallDelete key) = map_option fst (Delete t key)"

fun run_calls :: "'v lpmTrie \<Rightarrow> 'v call list \<Rightarrow> 'v lpmTrie option" where
  "run_calls t [] = Some t"
| "run_calls t (c # cs) = Option.bind (apply_call t c) (\<lambda>t'. run_calls t' cs)"

subsection \<open>Bits of a key\<close>

definition bit_at :: "Key \<Rightarrow> int \<Rightarrow> bool" where
  "bit_at key i = key_bits (Data key) ! nat i"

subsection \<open>Invariant of call sequences\<close>

text \<open>What \<open>New\<close> establishes and every call keeps.\<close>

definition trie_ok :: "'v lpmTrie \<Rightarrow> bool" where
  "trie_ok t \<longleftrightarrow>
     config_ok t \<and> keys_valid t (root t) \<and> im_branching (root t) \<and>
     size_cnt t = of_nat (count_entries (root t))"

subsection \<open>Longest prefix match over the inserted keys\<close>

text \<open>
  \<open>first_bits_equal k q\<close>: the first \<open>PrefixLen k\<close> bits of \<open>k\<close> equal the corresponding
  bits of \<open>q\<close>. \<open>covers k q\<close> adds that \<open>k\<close> is not longer than \<open>q\<close>.
  \<open>longest_match\<close> picks, among the inserted keys that satisfy \<open>cov\<close> for the query, the
  one with the greatest prefix length, the latest insertion winning among equal lengths;
  \<open>lookup_result\<close> is what \<open>Lookup\<close> is to return for it.
\<close>

definition first_bits_equal :: "Key \<Rightarrow> Key \<Rightarrow> bool" where
  "first_bits_equal k q \<longleftrightarrow>
     take (nat (PrefixLen k)) (key_bits (Data k)) = take (nat (PrefixLen k)) (key_bits (Data q))"

definition covers :: "Key \<Rightarrow> Key \<Rightarrow> bool" where
  "covers k q \<longleftrightarrow> PrefixLen k \<le> PrefixLen q \<and> first_bits_equal k q"

definition match_step ::
  "(Key \<Rightarrow> Key \<Rightarrow> bool) \<Rightarrow> Key \<Rightarrow> Key \<times> 'v option \<Rightarrow> (Key \<times> 'v option) option \<Rightarrow>
     (Key \<times> 'v option) option" where
  "match_step cov q e best =
     (if cov (fst e) q \<and>
         (case best of None \<Rightarrow> True | Some (k', v') \<Rightarrow> PrefixLen k' \<le> PrefixLen (fst e))
      then Some e else best)"

definition longest_match ::
  "(Key \<Rightarrow> Key \<Rightarrow> bool) \<Rightarrow> (Key \<times> 'v option) list \<Rightarrow> Key \<Rightarrow> (Key \<times> 'v option) option" where
  "longest_match cov ins q = fold (match_step cov q) ins None"

definition lookup_result :: "(Key \<times> 'v option) option \<Rightarrow> 'v option \<times> bool" where
  "lookup_result best = (case best of None \<Rightarrow> (None, False) | Some (k, v) \<Rightarrow> (v, True))"

definition update_calls :: "(Key \<times> 'v option) list \<Rightarrow> 'v call list" where
  "update_calls ins = map (\<lambda>(k, v). CallUpdate k v) ins"

text \<open>
  The case that \<open>Update\<close> has no branch for: the descent stops at a node that is longer
  than the match length, and the match length is the whole prefix of the new key, so the
  new key is a proper prefix of that node's key. \<open>plain_calls\<close> says that no \<open>Update\<close>
  of a sequence of calls meets it (and that no call panics).
\<close>

definition ancestor_case :: "'v lpmTrie \<Rightarrow> Key \<Rightarrow> bool" where
  "ancestor_case t key =
     (case update_loop t key (root t) [] 0 of
        Some (slot, Node k c0 c1 v im, m) \<Rightarrow> PrefixLen k \<noteq> m \<and> m = PrefixLen key
      | _ \<Rightarrow> False)"

fun plain_calls :: "'v lpmTrie \<Rightarrow> 'v call list \<Rightarrow> bool" where
  "plain_calls t [] = True"
| "plain_calls t (c # cs) =
     ((case c of CallUpdate k v \<Rightarrow> \<not> ancestor_case t k | CallDelete k \<Rightarrow> True) \<and>
      (case apply_call t c of None \<Rightarrow> False | Some t' \<Rightarrow> plain_calls t' cs))"

subsection \<open>Prefix invariant of the tree\<close>

text \<open>
  The significant bits of a key. In \<open>prefix_inv t p n\<close> every key stored in \<open>n\<close> is
  valid, the key of \<open>n\<close> extends the bit string \<open>p\<close>, and the keys of the nodes below a
  node extend that node's prefix by the index of the child slot they hang in; so a child
  is strictly longer than its parent. \<open>slot_ctx n s p\<close> is the bit string that the
  occupant of slot \<open>s\<close> has to extend.
\<close>

definition key_prefix :: "Key \<Rightarrow> bool list" where
  "key_prefix k = take (nat (PrefixLen k)) (key_bits (Data k))"

fun prefix_inv :: "'v lpmTrie \<Rightarrow> bool list \<Rightarrow> 'v lpmTrieNode \<Rightarrow> bool" where
  "prefix_inv t p nilNode = True"
| "prefix_inv t p (Node k c0 c1 v im) =
     (isValidKey t k \<and> prefix p (key_prefix k) \<and>
      prefix_inv t (key_prefix k @ [False]) c0 \<and> prefix_inv t (key_prefix k @ [True]) c1)"

fun slot_ctx :: "'v lpmTrieNode \<Rightarrow> slot \<Rightarrow> bool list \<Rightarrow> bool list" where
  "slot_ctx n [] p = p"
| "slot_ctx nilNode (b # bs) p = p"
| "slot_ctx (Node k c0 c1 v im) (b # bs) p =
     slot_ctx (if b = 0 then c0 else c1) bs (key_prefix k @ [b \<noteq> 0])"

subsection \<open>In-order sequence of the entries\<close>

text \<open>
  The non-intermediate nodes of a tree in in-order (\<open>child[0]\<close> subtree, node,
  \<open>child[1]\<close> subtree), and a visitor run over a list of entries until it returns false.
\<close>

fun entries_inorder :: "'v lpmTrieNode \<Rightarrow> (Key \<times> 'v option) list" where
  "entries_inorder nilNode = []"
| "entries_inorder (Node k c0 c1 v im) =
     entries_inorder c0 @ (if im then [] else [(k, v)]) @ entries_inorder c1"

fun visit_all ::
  "(Key \<Rightarrow> 'v option \<Rightarrow> 's \<Rightarrow> bool \<times> 's) \<Rightarrow> (Key \<times> 'v option) list \<Rightarrow> 's \<Rightarrow> bool \<times> 's" where
  "visit_all fn [] s = (False, s)"
| "visit_all fn ((k, v) # es) s =
     (case fn k v s of (False, s') \<Rightarrow> (True, s') | (True, s') \<Rightarrow> visit_all fn es s')"

text \<open>
  Two orders on bit strings. \<open>bits_less\<close> is the lexicographic order (a proper prefix
  is less). \<open>inorder_before\<close> is the order of an in-order walk of the binary trie: it
  agrees with it where the bit strings differ at some position, and puts a bit string
  after its extensions by 0 and before its extensions by 1.
\<close>

fun bits_less :: "bool list \<Rightarrow> bool list \<Rightarrow> bool" where
  "bits_less [] [] = False"
| "bits_less [] (b # q) = True"
| "bits_less (a # p) [] = False"
| "bits_less (a # p) (b # q) = (if a = b then bits_less p q else b)"

fun inorder_before :: "bool list \<Rightarrow> bool list \<Rightarrow> bool" where
  "inorder_before [] [] = False"
| "inorder_before [] (b # q) = b"
| "inorder_before (a # p) [] = (\<not> a)"
| "inorder_before (a # p) (b # q) = (if a = b then inorder_before p q else b)"

text \<open>
  \<open>is_best n q best\<close>: \<open>best\<close> is an entry of the tree \<open>n\<close> that covers the query \<open>q\<close>
  and is the longest one that does, or \<open>None\<close> when no entry covers \<open>q\<close>.
\<close>

definition is_best :: "'v lpmTrieNode \<Rightarrow> Key \<Rightarrow> (Key \<times> 'v option) option \<Rightarrow> bool" where
  "is_best n q best =
     (case best of
        None \<Rightarrow> (\<forall>(k, v) \<in> set (entries_inorder n). \<not> covers k q)
      | Some (k0, v0) \<Rightarrow>
          (k0, v0) \<in> set (entries_inorder n) \<and> covers k0 q \<and>
          (\<forall>(k, v) \<in> set (entries_inorder n). covers k q \<longrightarrow> PrefixLen k \<le> PrefixLen k0))"

section \<open>Properties\<close>

subsection \<open>The chunked prefix match\<close>

lemma word_bits_xor: "word_bits (a XOR b) = map2 (\<noteq>) (word_bits a) (word_bits b)"
  by (simp add: word_bits_def zip_map_map bit_xor_iff zip_same_conv_map)

lemma length_word_bits [simp]: "length (word_bits (x::'a::len word)) = LENGTH('a)"
  by (simp add: word_bits_def)

lemma bit_be32:
  fixes b0 b1 b2 b3 :: byte
  shows "bit (ucast b3 OR push_bit 8 (ucast b2) OR push_bit 16 (ucast b1) OR push_bit 24 (ucast b0) :: 32 word) n
     \<longleftrightarrow> (if n < 8 then bit b3 n else if n < 16 then bit b2 (n - 8)
          else if n < 24 then bit b1 (n - 16) else bit b0 (n - 24))"
  by (auto simp add: bit_or_iff bit_push_bit_iff bit_ucast_iff dest: bit_imp_le_length)

lemma upt_rev_32: "rev [0..<32] = [31,30,29,28,27,26,25,24,23,22,21,20,19,18,17,16,15,14,13,12,11,10,9,8,7,6,5,4,3,2,1,0::nat]"
  by (simp add: upt_rec numeral_nat)

lemma upt_rev_16: "rev [0..<16] = [15,14,13,12,11,10,9,8,7,6,5,4,3,2,1,0::nat]"
  by (simp add: upt_rec numeral_nat)

lemma upt_rev_8: "rev [0..<8] = [7,6,5,4,3,2,1,0::nat]"
  by (simp add: upt_rec numeral_nat)

lemma word_bits_byte: "word_bits (b::byte) = [bit b 7, bit b 6, bit b 5, bit b 4, bit b 3, bit b 2, bit b 1, bit b 0]"
  by (simp add: word_bits_def upt_rev_8)

lemma word_bits_Uint32:
  "Uint32 [b0, b1, b2, b3] = Some w \<Longrightarrow> word_bits w = key_bits [b0, b1, b2, b3]"
  by (clarsimp simp add: Uint32_def key_bits_def word_bits_byte simp del: push_bit_eq_mult)
     (simp add: word_bits_def upt_rev_32 bit_be32 del: push_bit_eq_mult)

lemma bit_be16:
  fixes b0 b1 :: byte
  shows "bit (ucast b1 OR push_bit 8 (ucast b0) :: 16 word) n
     \<longleftrightarrow> (if n < 8 then bit b1 n else bit b0 (n - 8))"
  by (auto simp add: bit_or_iff bit_push_bit_iff bit_ucast_iff dest: bit_imp_le_length)

lemma word_bits_Uint16:
  "Uint16 [b0, b1] = Some w \<Longrightarrow> word_bits w = key_bits [b0, b1]"
  by (clarsimp simp add: Uint16_def key_bits_def word_bits_byte simp del: push_bit_eq_mult)
     (simp add: word_bits_def upt_rev_16 bit_be16 del: push_bit_eq_mult)

lemma word_bits_eq_iff: "word_bits a = word_bits b \<longleftrightarrow> a = b"
  by (auto simp add: word_bits_def bit_eq_iff dest: bit_imp_le_length)

lemma word_bits_zero: "(\<forall>x \<in> set (word_bits a). \<not> x) \<longleftrightarrow> a = 0"
  by (auto simp add: word_bits_def bit_eq_iff dest: bit_imp_le_length)


lemma length_key_bits [simp]: "length (key_bits a) = 8 * length a"
  by (induction a) (simp_all add: key_bits_def)

lemma key_bits_append [simp]: "key_bits (a @ b) = key_bits a @ key_bits b"
  by (simp add: key_bits_def)

lemma key_bits_inj: "length a = length b \<Longrightarrow> key_bits a = key_bits b \<longleftrightarrow> a = b"
proof (induction a arbitrary: b)
  case Nil
  then show ?case by simp
next
  case (Cons x a)
  then obtain y b' where b: "b = y # b'" "length a = length b'"
    by (cases b) auto
  with Cons.IH [of b'] show ?case
    by (simp add: key_bits_def word_bits_eq_iff)
qed

lemma zip_all_eq: "length xs = length ys \<Longrightarrow> (\<forall>p \<in> set (zip xs ys). fst p = snd p) \<longleftrightarrow> xs = ys"
  by (induction xs ys rule: list_induct2) auto

lemma first_diff_bit_le: "first_diff_bit a b \<le> 8 * length a"
proof -
  have "first_diff_bit a b \<le> length (zip (key_bits a) (key_bits b))"
    unfolding first_diff_bit_def by (rule length_takeWhile_le)
  then show ?thesis by simp
qed

lemma first_diff_bit_full:
  assumes "length a = length b"
  shows "first_diff_bit a b = 8 * length a \<longleftrightarrow> a = b"
proof -
  let ?z = "zip (key_bits a) (key_bits b)"
  let ?P = "\<lambda>(x::bool, y). x = y"
  have len: "length ?z = 8 * length a" using assms by simp
  have "length (takeWhile ?P ?z) = length ?z \<longleftrightarrow> (\<forall>p \<in> set ?z. ?P p)"
    by (metis takeWhile_eq_all_conv length_takeWhile_le takeWhile_eq_take take_all_iff order_refl)
  also have "\<dots> \<longleftrightarrow> (\<forall>p \<in> set ?z. fst p = snd p)"
    by (simp add: case_prod_beta)
  also have "\<dots> \<longleftrightarrow> key_bits a = key_bits b"
    using assms by (simp add: zip_all_eq)
  also have "\<dots> \<longleftrightarrow> a = b"
    using assms by (rule key_bits_inj)
  finally show ?thesis by (simp only: first_diff_bit_def len)
qed

lemma first_diff_bit_append:
  assumes "length a1 = length b1"
  shows "first_diff_bit (a1 @ a2) (b1 @ b2) =
           (if a1 = b1 then 8 * length a1 + first_diff_bit a2 b2 else first_diff_bit a1 b1)"
proof -
  let ?P = "\<lambda>(x::bool, y). x = y"
  let ?z1 = "zip (key_bits a1) (key_bits b1)"
  let ?z2 = "zip (key_bits a2) (key_bits b2)"
  have z: "zip (key_bits (a1 @ a2)) (key_bits (b1 @ b2)) = ?z1 @ ?z2"
    using assms by simp
  have all: "(\<forall>p \<in> set ?z1. ?P p) \<longleftrightarrow> a1 = b1"
    using assms zip_all_eq [of "key_bits a1" "key_bits b1"] key_bits_inj [of a1 b1]
    by (simp add: case_prod_beta)
  show ?thesis
  proof (cases "a1 = b1")
    case True
    then have "takeWhile ?P (?z1 @ ?z2) = ?z1 @ takeWhile ?P ?z2"
      using all by (intro takeWhile_append2) auto
    then have "length (takeWhile ?P (?z1 @ ?z2)) = length ?z1 + length (takeWhile ?P ?z2)"
      by simp
    moreover have "length ?z1 = 8 * length a1" using assms by simp
    ultimately show ?thesis using True unfolding first_diff_bit_def z by simp
  next
    case False
    then obtain p where "p \<in> set ?z1" "\<not> ?P p" using all by blast
    then have "takeWhile ?P (?z1 @ ?z2) = takeWhile ?P ?z1"
      by (intro takeWhile_append1) auto
    then show ?thesis using False by (simp only: first_diff_bit_def z if_False)
  qed
qed

lemma first_diff_bit_split:
  assumes "length a = length b" "n \<le> length a"
  shows "first_diff_bit a b =
           (if take n a = take n b then 8 * n + first_diff_bit (drop n a) (drop n b)
            else first_diff_bit (take n a) (take n b))"
proof -
  have "first_diff_bit (take n a @ drop n a) (take n b @ drop n b) =
           (if take n a = take n b then 8 * length (take n a) + first_diff_bit (drop n a) (drop n b)
            else first_diff_bit (take n a) (take n b))"
    using assms by (intro first_diff_bit_append) simp
  then show ?thesis using assms by simp
qed

lemma leading_zeros_xor:
  "leading_zeros (a XOR b) =
     length (takeWhile (\<lambda>(x, y). x = y) (zip (word_bits a) (word_bits b)))"
proof -
  have "(Not \<circ> (\<lambda>(x, y). x \<noteq> y)) = (\<lambda>(x::bool, y). x = y)"
    by auto
  then show ?thesis
    by (simp add: leading_zeros_def word_bits_xor takeWhile_map)
qed

lemma Uint32_chunk:
  assumes "length ns = 4" "length ks = 4"
  shows "\<exists>a b. Uint32 ns = Some a \<and> Uint32 ks = Some b \<and>
           leading_zeros (a XOR b) = first_diff_bit ns ks \<and> (a XOR b = 0 \<longleftrightarrow> ns = ks)"
proof -
  obtain n0 n1 n2 n3 where ns: "ns = [n0, n1, n2, n3]"
    using assms(1) by (auto simp add: length_Suc_conv numeral_eq_Suc)
  obtain k0 k1 k2 k3 where ks: "ks = [k0, k1, k2, k3]"
    using assms(2) by (auto simp add: length_Suc_conv numeral_eq_Suc)
  obtain a where a: "Uint32 ns = Some a" by (simp add: Uint32_def assms)
  obtain b where b: "Uint32 ks = Some b" by (simp add: Uint32_def assms)
  have wa: "word_bits a = key_bits ns" using a word_bits_Uint32 unfolding ns by blast
  have wb: "word_bits b = key_bits ks" using b word_bits_Uint32 unfolding ks by blast
  have lz: "leading_zeros (a XOR b) = first_diff_bit ns ks"
    by (simp add: leading_zeros_xor wa wb first_diff_bit_def)
  have "a XOR b = 0 \<longleftrightarrow> a = b" by (auto simp add: bit_eq_iff bit_xor_iff)
  also have "\<dots> \<longleftrightarrow> word_bits a = word_bits b" by (simp add: word_bits_eq_iff)
  also have "\<dots> \<longleftrightarrow> ns = ks" using assms by (simp add: wa wb key_bits_inj)
  finally show ?thesis using a b lz by blast
qed


lemma Uint16_chunk:
  assumes "length ns = 2" "length ks = 2"
  shows "\<exists>a b. Uint16 ns = Some a \<and> Uint16 ks = Some b \<and>
           leading_zeros (a XOR b) = first_diff_bit ns ks \<and> (a XOR b = 0 \<longleftrightarrow> ns = ks)"
proof -
  obtain n0 n1 where ns: "ns = [n0, n1]"
    using assms(1) by (auto simp add: length_Suc_conv numeral_eq_Suc)
  obtain k0 k1 where ks: "ks = [k0, k1]"
    using assms(2) by (auto simp add: length_Suc_conv numeral_eq_Suc)
  obtain a where a: "Uint16 ns = Some a" by (simp add: Uint16_def assms)
  obtain b where b: "Uint16 ks = Some b" by (simp add: Uint16_def assms)
  have wa: "word_bits a = key_bits ns" using a word_bits_Uint16 unfolding ns by blast
  have wb: "word_bits b = key_bits ks" using b word_bits_Uint16 unfolding ks by blast
  have lz: "leading_zeros (a XOR b) = first_diff_bit ns ks"
    by (simp add: leading_zeros_xor wa wb first_diff_bit_def)
  have "a XOR b = 0 \<longleftrightarrow> a = b" by (auto simp add: bit_eq_iff bit_xor_iff)
  also have "\<dots> \<longleftrightarrow> word_bits a = word_bits b" by (simp add: word_bits_eq_iff)
  also have "\<dots> \<longleftrightarrow> ns = ks" using assms by (simp add: wa wb key_bits_inj)
  finally show ?thesis using a b lz by blast
qed

lemma byte_chunk:
  fixes a b :: byte
  shows "leading_zeros (a XOR b) = first_diff_bit [a] [b]"
  by (simp add: leading_zeros_xor first_diff_bit_def key_bits_def)

lemma chunk_step:
  assumes len: "int (length nd) = ks" "int (length kd) = ks"
    and inv: "lpm_inv ks nd kd limit prefixlen i"
    and c: "0 < c" "i + int c \<le> ks"
  defines "ns \<equiv> take c (drop (nat i) nd)" and "cs \<equiv> take c (drop (nat i) kd)"
  shows "length ns = c" "length cs = c"
    "slice nd i (i + int c) = Some ns" "slice kd i (i + int c) = Some cs"
    "prefixlen + int (first_diff_bit ns cs) \<ge> limit \<Longrightarrow>
       min limit (int (first_diff_bit nd kd)) = limit"
    "ns \<noteq> cs \<Longrightarrow> \<not> prefixlen + int (first_diff_bit ns cs) \<ge> limit \<Longrightarrow>
       min limit (int (first_diff_bit nd kd)) = prefixlen + int (first_diff_bit ns cs)"
    "ns = cs \<Longrightarrow> \<not> prefixlen + int (first_diff_bit ns cs) \<ge> limit \<Longrightarrow>
       lpm_inv ks nd kd limit (prefixlen + int (first_diff_bit ns cs)) (i + int c)"
proof -
  let ?n = "nat i"
  from inv have i: "0 \<le> i" "i \<le> ks" and tk: "take ?n nd = take ?n kd"
    and p: "prefixlen = 8 * i" and lim: "prefixlen < limit \<or> i = 0"
    by (auto simp add: lpm_inv_def)
  have ln: "length nd = length kd" using len by simp
  have nle: "?n + c \<le> length nd" using len c i by linarith
  show lns: "length ns = c" using nle by (simp add: ns_def)
  show lcs: "length cs = c" using nle ln by (simp add: cs_def)
  show "slice nd i (i + int c) = Some ns"
    using len c i by (simp add: slice_def ns_def)
  show "slice kd i (i + int c) = Some cs"
    using len c i by (simp add: slice_def cs_def)
  have fd1: "first_diff_bit nd kd = 8 * ?n + first_diff_bit (drop ?n nd) (drop ?n kd)"
    using first_diff_bit_split [OF ln, of ?n] nle tk by simp
  have fd2: "first_diff_bit (drop ?n nd) (drop ?n kd) =
      (if ns = cs then 8 * c + first_diff_bit (drop c (drop ?n nd)) (drop c (drop ?n kd))
       else first_diff_bit ns cs)"
    unfolding ns_def cs_def
    using nle ln by (intro first_diff_bit_split) simp_all
  have full: "ns = cs \<Longrightarrow> first_diff_bit ns cs = 8 * c"
    using first_diff_bit_full [of ns cs] lns lcs by simp
  have ge: "first_diff_bit nd kd \<ge> 8 * ?n + first_diff_bit ns cs"
    using fd1 fd2 full by (cases "ns = cs") simp_all
  have p': "prefixlen = int (8 * ?n)" using p i by simp
  show "prefixlen + int (first_diff_bit ns cs) \<ge> limit \<Longrightarrow>
       min limit (int (first_diff_bit nd kd)) = limit"
    using ge p' by linarith
  show "ns \<noteq> cs \<Longrightarrow> \<not> prefixlen + int (first_diff_bit ns cs) \<ge> limit \<Longrightarrow>
       min limit (int (first_diff_bit nd kd)) = prefixlen + int (first_diff_bit ns cs)"
    using fd1 fd2 p' by simp
  show "ns = cs \<Longrightarrow> \<not> prefixlen + int (first_diff_bit ns cs) \<ge> limit \<Longrightarrow>
       lpm_inv ks nd kd limit (prefixlen + int (first_diff_bit ns cs)) (i + int c)"
  proof -
    assume eq: "ns = cs" and nlim: "\<not> prefixlen + int (first_diff_bit ns cs) \<ge> limit"
    have "take (?n + c) nd = take ?n nd @ take c (drop ?n nd)"
      by (simp add: take_add)
    moreover have "take (?n + c) kd = take ?n kd @ take c (drop ?n kd)"
      by (simp add: take_add)
    ultimately have "take (?n + c) nd = take (?n + c) kd"
      using tk eq by (simp add: ns_def cs_def)
    moreover have "nat (i + int c) = ?n + c" using i by simp
    ultimately show ?thesis
      using i c p nlim full [OF eq] by (simp add: lpm_inv_def)
  qed
qed

lemma lpm_loop32_correct:
  assumes len: "int (length nd) = ks" "int (length kd) = ks"
    and inv: "lpm_inv ks nd kd limit prefixlen i"
  shows "\<exists>r. lpm_loop32 ks nd kd limit prefixlen i = Some r \<and>
           (case r of
              Return m \<Rightarrow> m = min limit (int (first_diff_bit nd kd))
            | Continue p j \<Rightarrow> lpm_inv ks nd kd limit p j \<and> ks < j + 4)"
  using inv
proof (induction "nat (ks - i)" arbitrary: i prefixlen rule: less_induct)
  case less
  note inv = less.prems
  show ?case
  proof (cases "ks \<ge> i + 4")
    case False
    then show ?thesis using inv by (subst lpm_loop32.simps) simp
  next
    case True
    let ?ns = "take 4 (drop (nat i) nd)" and ?cs = "take 4 (drop (nat i) kd)"
    have c: "(0::nat) < 4" "i + int 4 \<le> ks" using True by simp_all
    note st = chunk_step [OF len inv c]
    obtain a b where ab: "Uint32 ?ns = Some a" "Uint32 ?cs = Some b"
      "leading_zeros (a XOR b) = first_diff_bit ?ns ?cs" "a XOR b = 0 \<longleftrightarrow> ?ns = ?cs"
      using Uint32_chunk [OF st(1) st(2)] by blast
    let ?p = "prefixlen + int (first_diff_bit ?ns ?cs)"
    have unf: "lpm_loop32 ks nd kd limit prefixlen i =
        (if ?p \<ge> limit then Some (Return limit)
         else if ?ns \<noteq> ?cs then Some (Return ?p)
         else lpm_loop32 ks nd kd limit ?p (i + 4))"
      using True st(3,4) ab
      by (subst lpm_loop32.simps) (simp add: LeadingZeros32_def Let_def)
    show ?thesis
    proof (cases "?p \<ge> limit")
      case True
      then show ?thesis using unf st(5) by simp
    next
      case nlim: False
      show ?thesis
      proof (cases "?ns = ?cs")
        case False
        then show ?thesis using unf nlim st(6) by simp
      next
        case eq: True
        have inv': "lpm_inv ks nd kd limit ?p (i + 4)"
          using st(7) [OF eq nlim] by simp
        have "nat (ks - (i + 4)) < nat (ks - i)" using True by simp
        from less.hyps [OF this inv'] show ?thesis
          using unf nlim eq by simp
      qed
    qed
  qed
qed

lemma lpm_step16_correct:
  assumes len: "int (length nd) = ks" "int (length kd) = ks"
    and inv: "lpm_inv ks nd kd limit prefixlen i" and lt: "ks < i + 4"
  shows "\<exists>r. lpm_step16 ks nd kd limit prefixlen i = Some r \<and>
           (case r of
              Return m \<Rightarrow> m = min limit (int (first_diff_bit nd kd))
            | Continue p j \<Rightarrow> lpm_inv ks nd kd limit p j \<and> ks < j + 2)"
proof (cases "ks \<ge> i + 2")
  case False
  then show ?thesis using inv by (simp add: lpm_step16_def)
next
  case True
  let ?ns = "take 2 (drop (nat i) nd)" and ?cs = "take 2 (drop (nat i) kd)"
  have c: "(0::nat) < 2" "i + int 2 \<le> ks" using True by simp_all
  note st = chunk_step [OF len inv c]
  obtain a b where ab: "Uint16 ?ns = Some a" "Uint16 ?cs = Some b"
    "leading_zeros (a XOR b) = first_diff_bit ?ns ?cs" "a XOR b = 0 \<longleftrightarrow> ?ns = ?cs"
    using Uint16_chunk [OF st(1) st(2)] by blast
  let ?p = "prefixlen + int (first_diff_bit ?ns ?cs)"
  have unf: "lpm_step16 ks nd kd limit prefixlen i =
      (if ?p \<ge> limit then Some (Return limit)
       else if ?ns \<noteq> ?cs then Some (Return ?p)
       else Some (Continue ?p (i + 2)))"
    using True st(3,4) ab by (simp add: lpm_step16_def LeadingZeros16_def Let_def)
  show ?thesis
  proof (cases "?p \<ge> limit")
    case True
    then show ?thesis using unf st(5) by simp
  next
    case nlim: False
    show ?thesis
    proof (cases "?ns = ?cs")
      case False
      then show ?thesis using unf nlim st(6) by simp
    next
      case eq: True
      have "lpm_inv ks nd kd limit ?p (i + 2)"
        using st(7) [OF eq nlim] by simp
      then show ?thesis using unf nlim eq lt by simp
    qed
  qed
qed

lemma lpm_step8_correct:
  assumes len: "int (length nd) = ks" "int (length kd) = ks"
    and inv: "lpm_inv ks nd kd limit prefixlen i" and lt: "ks < i + 2" and lim: "0 \<le> limit"
  shows "lpm_step8 ks nd kd limit prefixlen i = Some (min limit (int (first_diff_bit nd kd)))"
proof (cases "ks \<ge> i + 1")
  case False
  with inv have i: "i = ks" "0 \<le> i" and tk: "take (nat i) nd = take (nat i) kd"
    and p: "prefixlen = 8 * i" "prefixlen < limit \<or> i = 0"
    by (auto simp add: lpm_inv_def)
  have "nd = kd" using tk i len by simp
  then have "first_diff_bit nd kd = 8 * length nd"
    using first_diff_bit_full [of nd kd] by simp
  then have "int (first_diff_bit nd kd) = prefixlen" using p i len by simp
  then show ?thesis using False p lim by (auto simp add: lpm_step8_def)
next
  case True
  let ?n = "nat i"
  let ?ns = "take 1 (drop ?n nd)" and ?cs = "take 1 (drop ?n kd)"
  have c: "(0::nat) < 1" "i + int 1 \<le> ks" using True by simp_all
  note st = chunk_step [OF len inv c]
  from inv have i: "0 \<le> i" by (simp add: lpm_inv_def)
  have n: "?n < length nd" "?n < length kd" using True len i by linarith+
  have ns: "?ns = [nd ! ?n]" "?cs = [kd ! ?n]"
    using n by (simp_all add: take_Suc hd_drop_conv_nth)
  have idx: "index nd i = Some (nd ! ?n)" "index kd i = Some (kd ! ?n)"
    using n i by (simp_all add: index_def)
  let ?p = "prefixlen + int (first_diff_bit ?ns ?cs)"
  have unf: "lpm_step8 ks nd kd limit prefixlen i =
      (if ?p \<ge> limit then Some limit else Some ?p)"
    using True idx ns by (simp add: lpm_step8_def LeadingZeros8_def Let_def byte_chunk)
  show ?thesis
  proof (cases "?p \<ge> limit")
    case True
    then show ?thesis using unf st(5) by simp
  next
    case nlim: False
    show ?thesis
    proof (cases "?ns = ?cs")
      case False
      then show ?thesis using unf nlim st(6) by simp
    next
      case eq: True
      have inv': "lpm_inv ks nd kd limit ?p (i + 1)"
        using st(7) [OF eq nlim] by simp
      then have "i + 1 = ks" using lt True by simp
      with inv' have "take (nat ks) nd = take (nat ks) kd" "?p = 8 * ks"
        by (simp_all add: lpm_inv_def)
      then have "nd = kd" using len by simp
      then have "first_diff_bit nd kd = 8 * length nd"
        using first_diff_bit_full [of nd kd] by simp
      then have "int (first_diff_bit nd kd) = ?p" using \<open>?p = 8 * ks\<close> len by simp
      then show ?thesis using unf nlim by simp
    qed
  qed
qed

lemma longestPrefixMatch_eq:
  assumes "int (length (Data node)) = keySize t" "int (length (Data key)) = keySize t"
    and "0 \<le> PrefixLen node" "0 \<le> PrefixLen key"
  shows "longestPrefixMatch t node key = Some (bitwise_match node key)"
proof -
  let ?limit = "min_int (PrefixLen node) (PrefixLen key)"
  let ?ks = "keySize t" and ?nd = "Data node" and ?kd = "Data key"
  let ?res = "min ?limit (int (first_diff_bit ?nd ?kd))"
  have lim: "0 \<le> ?limit" "?limit = min (PrefixLen node) (PrefixLen key)"
    using assms by (simp_all add: min_int_def min_def)
  have ks: "0 \<le> ?ks" using assms(1) by linarith
  have inv0: "lpm_inv ?ks ?nd ?kd ?limit 0 0" using ks by (simp add: lpm_inv_def)
  obtain r32 where r32: "lpm_loop32 ?ks ?nd ?kd ?limit 0 0 = Some r32"
    "case r32 of Return m \<Rightarrow> m = ?res | Continue p j \<Rightarrow> lpm_inv ?ks ?nd ?kd ?limit p j \<and> ?ks < j + 4"
    using lpm_loop32_correct [OF assms(1,2) inv0] by blast
  have "longestPrefixMatch t node key = Some ?res"
  proof (cases r32)
    case (Return m)
    then show ?thesis using r32 by (simp add: longestPrefixMatch_def Let_def)
  next
    case (Continue p j)
    then have inv1: "lpm_inv ?ks ?nd ?kd ?limit p j" "?ks < j + 4" using r32 by simp_all
    obtain r16 where r16: "lpm_step16 ?ks ?nd ?kd ?limit p j = Some r16"
      "case r16 of Return m \<Rightarrow> m = ?res | Continue p j \<Rightarrow> lpm_inv ?ks ?nd ?kd ?limit p j \<and> ?ks < j + 2"
      using lpm_step16_correct [OF assms(1,2) inv1] by blast
    show ?thesis
    proof (cases r16)
      case (Return m)
      then show ?thesis using r32 r16 Continue by (simp add: longestPrefixMatch_def Let_def)
    next
      case c2: (Continue p2 j2)
      then have inv2: "lpm_inv ?ks ?nd ?kd ?limit p2 j2" "?ks < j2 + 2" using r16 by simp_all
      from lpm_step8_correct [OF assms(1,2) inv2 lim(1)]
      show ?thesis using r32 r16 Continue c2 by (simp add: longestPrefixMatch_def Let_def)
    qed
  qed
  then show ?thesis by (simp add: bitwise_match_def lim(2))
qed

text \<open>
  Claim C5. For keys whose data buffers have the trie's key size and whose prefix lengths
  are not negative, the chunked \<open>longestPrefixMatch\<close> (32-bit, then 16-bit, then
  8-bit big-endian XOR chunks) returns, without panicking, what the bit-by-bit reference
  returns: the index of the first bit at which the buffers differ, capped at
  \<open>limit = min(node.PrefixLen, key.PrefixLen)\<close>.
\<close>

theorem longestPrefixMatch_bitwise:
  assumes "int (length (Data node)) = keySize t" "int (length (Data key)) = keySize t"
    and "0 \<le> PrefixLen node" "0 \<le> PrefixLen key"
  shows "longestPrefixMatch t node key = Some (bitwise_match node key)"
  using assms by (rule longestPrefixMatch_eq)

theorem longestPrefixMatch_bitwise_witness:
  "longestPrefixMatch \<lparr>root = nilNode, size_cnt = 0, maxPrefixLen = 32, keySize = 4\<rparr>
     \<lparr>PrefixLen = 32, Data = [0, 0, 0, 0]\<rparr> \<lparr>PrefixLen = 24, Data = [0, 128, 0, 0]\<rparr> = Some 8"
proof -
  have "bitwise_match \<lparr>PrefixLen = 32, Data = [0, 0, 0, 0]\<rparr>
          \<lparr>PrefixLen = 24, Data = [0, 128, 0, 0]\<rparr> = 8"
    by code_simp
  then show ?thesis
    using longestPrefixMatch_bitwise
      [of "\<lparr>PrefixLen = 32, Data = [0, 0, 0, 0]\<rparr>"
          "\<lparr>root = nilNode, size_cnt = 0, maxPrefixLen = 32, keySize = 4\<rparr>"
          "\<lparr>PrefixLen = 24, Data = [0, 128, 0, 0]\<rparr>"]
    by simp
qed

subsection \<open>Bit extraction\<close>

lemma word_bits_nth: "n < LENGTH('a) \<Longrightarrow> word_bits (x::'a::len word) ! n = bit x (LENGTH('a) - 1 - n)"
  by (simp add: word_bits_def rev_nth)

lemma key_bits_nth:
  "n < 8 * length data \<Longrightarrow> key_bits data ! n = bit (data ! (n div 8)) (7 - n mod 8)"
proof (induction data arbitrary: n)
  case Nil
  then show ?case by simp
next
  case (Cons x xs)
  have kb: "key_bits (x # xs) = word_bits x @ key_bits xs"
    by (simp add: key_bits_def)
  show ?case
  proof (cases "n < 8")
    case True
    then show ?thesis by (simp add: kb nth_append word_bits_nth)
  next
    case False
    then have n: "n - 8 < 8 * length xs" "(n - 8) div 8 = n div 8 - 1" "(n - 8) mod 8 = n mod 8"
      "0 < n div 8"
      using Cons.prems by (auto simp add: mod_if le_mod_geq div_greater_zero_iff)
    with False Cons.IH [of "n - 8"] show ?thesis
      by (simp add: kb nth_append)
  qed
qed

lemma drop_bit_and_1: "drop_bit s (w::byte) AND 1 = (if bit w s then 1 else 0)"
  by (simp add: and_one_eq mod_2_eq_odd bit_iff_odd_drop_bit)

lemma extractBit_key_bits:
  assumes "0 \<le> i" "i < 8 * int (length data)"
  shows "extractBit data i = Some (if key_bits data ! nat i then 1 else 0)"
proof -
  have sd: "i sdiv 8 = i div 8" "i smod 8 = i mod 8"
    using assms(1) by (simp_all add: signed_divide_int_def signed_modulo_int_def sgn_if)
  have n: "nat i < 8 * length data" using assms by linarith
  have d: "nat (i div 8) = nat i div 8" "nat (7 - i mod 8) = 7 - nat i mod 8"
    using assms(1) by (simp_all add: nat_div_distrib nat_mod_distrib nat_diff_distrib)
  have j: "0 \<le> i div 8" "i div 8 < int (length data)"
    using assms by (simp_all add: div_int_pos_iff)
  show ?thesis
    using j by (simp add: extractBit_def sd Let_def drop_bit_and_1 d key_bits_nth [OF n])
qed

lemma bitwise_match_le:
  "bitwise_match k key \<le> PrefixLen k" "bitwise_match k key \<le> PrefixLen key"
  by (simp_all add: bitwise_match_def)

lemma bitwise_match_nonneg: "0 \<le> PrefixLen k \<Longrightarrow> 0 \<le> PrefixLen key \<Longrightarrow> 0 \<le> bitwise_match k key"
  by (simp add: bitwise_match_def)

subsection \<open>Configuration\<close>

lemma longestPrefixMatch_config:
  "keySize t' = keySize t \<Longrightarrow> longestPrefixMatch t' k key = longestPrefixMatch t k key"
  by (simp add: longestPrefixMatch_def)

lemma isValidKey_config:
  "keySize t' = keySize t \<Longrightarrow> maxPrefixLen t' = maxPrefixLen t \<Longrightarrow> isValidKey t' = isValidKey t"
  by (simp add: isValidKey_def fun_eq_iff)

lemma keys_valid_config:
  "keySize t' = keySize t \<Longrightarrow> maxPrefixLen t' = maxPrefixLen t \<Longrightarrow>
   keys_valid t' n = keys_valid t n"
  by (induction n) (simp_all add: isValidKey_config [of t' t])

lemma lookup_loop_config:
  assumes "keySize t' = keySize t" "maxPrefixLen t' = maxPrefixLen t"
  shows "lookup_loop t' key n found = lookup_loop t key n found"
proof (induction n arbitrary: found)
  case nilNode
  then show ?case by simp
next
  case (Node k c0 c1 v im)
  then have ch: "\<And>b f. lookup_loop t' key (if b = (0::byte) then c0 else c1) f =
      lookup_loop t key (if b = (0::byte) then c0 else c1) f"
    by simp
  show ?case
    using assms
    by (auto intro!: Option.bind_cong simp add: ch longestPrefixMatch_config [of t' t])
qed

lemma update_loop_config:
  assumes "keySize t' = keySize t" "maxPrefixLen t' = maxPrefixLen t"
  shows "update_loop t' key n slot m = update_loop t key n slot m"
proof (induction n arbitrary: slot m)
  case nilNode
  then show ?case by simp
next
  case (Node k c0 c1 v im)
  then have ch: "\<And>b s m. update_loop t' key (if b = (0::byte) then c0 else c1) s m =
      update_loop t key (if b = (0::byte) then c0 else c1) s m"
    by simp
  show ?case
    using assms
    by (auto intro!: Option.bind_cong simp add: ch longestPrefixMatch_config [of t' t])
qed

lemma delete_loop_config:
  assumes "keySize t' = keySize t" "maxPrefixLen t' = maxPrefixLen t"
  shows "delete_loop t' key n parent trim trim2 m = delete_loop t key n parent trim trim2 m"
proof (induction n arbitrary: parent trim trim2 m)
  case nilNode
  then show ?case by simp
next
  case (Node k c0 c1 v im)
  then have ch: "\<And>b p s s2 m. delete_loop t' key (if b = (0::byte) then c0 else c1) p s s2 m =
      delete_loop t key (if b = (0::byte) then c0 else c1) p s s2 m"
    by simp
  show ?case
    using assms
    by (auto intro!: Option.bind_cong simp add: ch longestPrefixMatch_config [of t' t])
qed

lemma longestPrefixMatch_valid:
  "isValidKey t k \<Longrightarrow> isValidKey t key \<Longrightarrow>
   longestPrefixMatch t k key = Some (bitwise_match k key)"
  by (simp add: isValidKey_def longestPrefixMatch_eq)

lemma extractBit_valid:
  assumes "config_ok t" "isValidKey t key" "0 \<le> i" "i < maxPrefixLen t"
  shows "extractBit (Data key) i = Some (if key_bits (Data key) ! nat i then 1 else 0)"
  using assms by (intro extractBit_key_bits) (simp_all add: config_ok_def isValidKey_def)

subsection \<open>Slots\<close>

lemma loadPointer_append:
  "loadPointer n (p @ q) = loadPointer (loadPointer n p) q"
proof (induction n p rule: loadPointer.induct)
  case (2 b bs)
  then show ?case by (cases q) simp_all
qed simp_all

lemma slot_in_append:
  "slot_in n (p @ q) \<longleftrightarrow> slot_in n p \<and> slot_in (loadPointer n p) q"
proof (induction n p rule: slot_in.induct)
  case (2 b bs)
  then show ?case by simp
qed simp_all

lemma loadPointer_storePointer:
  "slot_in n p \<Longrightarrow> loadPointer (storePointer n p new) p = new"
  by (induction n p rule: slot_in.induct) (simp_all split: if_splits)

lemma keys_valid_loadPointer: "keys_valid t n \<Longrightarrow> keys_valid t (loadPointer n p)"
  by (induction n p rule: loadPointer.induct) simp_all

lemma keys_valid_storePointer:
  "keys_valid t n \<Longrightarrow> keys_valid t new \<Longrightarrow> keys_valid t (storePointer n p new)"
  by (induction n p new rule: storePointer.induct) simp_all

lemma count_entries_storePointer:
  "slot_in n p \<Longrightarrow>
   count_entries (storePointer n p new) + count_entries (loadPointer n p) =
   count_entries n + count_entries new"
  by (induction n p new rule: storePointer.induct) (simp_all split: if_splits)

lemma im_branching_loadPointer: "im_branching n \<Longrightarrow> im_branching (loadPointer n p)"
  by (induction n p rule: loadPointer.induct) simp_all

lemma storePointer_eq_nilNode:
  "slot_in n p \<Longrightarrow> storePointer n p new = nilNode \<longleftrightarrow> p = [] \<and> new = nilNode"
  by (induction n p new rule: storePointer.induct) auto

lemma im_branching_storePointer:
  assumes "slot_in n p" "im_branching n" "im_branching new"
    and "new = nilNode \<Longrightarrow> p = [] \<or> \<not> isIm (loadPointer n (butlast p))"
  shows "im_branching (storePointer n p new)"
  using assms
proof (induction n p new rule: storePointer.induct)
  case (3 k c0 c1 v im b bs new)
  show ?case
  proof (cases bs)
    case Nil
    then show ?thesis using 3 by auto
  next
    case (Cons b' bs')
    then have nn: "storePointer (if b = 0 then c0 else c1) bs new \<noteq> nilNode"
      using "3.prems"(1) by (auto simp add: storePointer_eq_nilNode)
    show ?thesis
      using 3 nn Cons by (auto split: if_splits)
  qed
qed simp_all

subsection \<open>The descents\<close>

lemma bitwise_match_max:
  assumes "isValidKey t k" "isValidKey t key" "PrefixLen k = bitwise_match k key"
    "PrefixLen k = maxPrefixLen t"
  shows "PrefixLen k = PrefixLen key"
  using assms bitwise_match_le(2) [of k key] by (simp add: isValidKey_def)

lemma lookup_loop_Node:
  assumes "config_ok t" "isValidKey t key" "isValidKey t k"
  shows "lookup_loop t key (Node k c0 c1 v im) found =
     (let m = bitwise_match k key in
      if m = maxPrefixLen t then Some (Node k c0 c1 v im)
      else if m < PrefixLen k then Some found
      else lookup_loop t key (if bit_at key (PrefixLen k) then c1 else c0)
             (if \<not> im then Node k c0 c1 v im else found))"
proof -
  let ?m = "bitwise_match k key"
  have m: "longestPrefixMatch t k key = Some ?m"
    using assms by (simp add: longestPrefixMatch_valid)
  show ?thesis
  proof (cases "?m = maxPrefixLen t \<or> ?m < PrefixLen k")
    case True
    then show ?thesis by (auto simp add: m Let_def)
  next
    case False
    then have "PrefixLen k = ?m" using bitwise_match_le(1) [of k key] by simp
    then have "PrefixLen k < maxPrefixLen t" "0 \<le> PrefixLen k"
      using False assms bitwise_match_le(2) [of k key] by (simp_all add: isValidKey_def)
    then have "extractBit (Data key) (PrefixLen k) =
        Some (if key_bits (Data key) ! nat (PrefixLen k) then 1 else 0)"
      using assms by (intro extractBit_valid) simp_all
    then show ?thesis using False by (simp add: m Let_def bit_at_def)
  qed
qed

lemma update_loop_Node:
  assumes "config_ok t" "isValidKey t key" "isValidKey t k"
  shows "update_loop t key (Node k c0 c1 v im) slot m0 =
     (let m = bitwise_match k key in
      if PrefixLen k \<noteq> m \<or> PrefixLen k = PrefixLen key then Some (slot, Node k c0 c1 v im, m)
      else update_loop t key (if bit_at key (PrefixLen k) then c1 else c0)
             (slot @ [if bit_at key (PrefixLen k) then 1 else 0]) m)"
proof -
  let ?m = "bitwise_match k key"
  have m: "longestPrefixMatch t k key = Some ?m"
    using assms by (simp add: longestPrefixMatch_valid)
  show ?thesis
  proof (cases "PrefixLen k \<noteq> ?m \<or> PrefixLen k = PrefixLen key")
    case True
    then show ?thesis by (auto simp add: m Let_def)
  next
    case False
    then have eq: "PrefixLen k = ?m" "PrefixLen k \<noteq> PrefixLen key" by simp_all
    then have nmax: "PrefixLen k \<noteq> maxPrefixLen t"
      using bitwise_match_max [OF assms(3,2)] by auto
    have "PrefixLen k < maxPrefixLen t" "0 \<le> PrefixLen k"
      using nmax assms by (simp_all add: isValidKey_def)
    then have "extractBit (Data key) (PrefixLen k) =
        Some (if key_bits (Data key) ! nat (PrefixLen k) then 1 else 0)"
      using assms by (intro extractBit_valid) simp_all
    then show ?thesis using False nmax by (simp add: m Let_def bit_at_def)
  qed
qed

lemma delete_loop_Node:
  assumes "config_ok t" "isValidKey t key" "isValidKey t k"
  shows "delete_loop t key (Node k c0 c1 v im) parent trim trim2 m0 =
     (let m = bitwise_match k key in
      if PrefixLen k \<noteq> m \<or> PrefixLen k = PrefixLen key
      then Some (parent, trim, trim2, Node k c0 c1 v im, m)
      else delete_loop t key (if bit_at key (PrefixLen k) then c1 else c0) (Node k c0 c1 v im)
             (trim @ [if bit_at key (PrefixLen k) then 1 else 0]) trim m)"
proof -
  let ?m = "bitwise_match k key"
  have m: "longestPrefixMatch t k key = Some ?m"
    using assms by (simp add: longestPrefixMatch_valid)
  show ?thesis
  proof (cases "PrefixLen k \<noteq> ?m \<or> PrefixLen k = PrefixLen key")
    case True
    then show ?thesis by (auto simp add: m Let_def)
  next
    case False
    then have eq: "PrefixLen k = ?m" "PrefixLen k \<noteq> PrefixLen key" by simp_all
    then have nmax: "PrefixLen k \<noteq> maxPrefixLen t"
      using bitwise_match_max [OF assms(3,2)] by auto
    have "PrefixLen k < maxPrefixLen t" "0 \<le> PrefixLen k"
      using nmax assms by (simp_all add: isValidKey_def)
    then have "extractBit (Data key) (PrefixLen k) =
        Some (if key_bits (Data key) ! nat (PrefixLen k) then 1 else 0)"
      using assms by (intro extractBit_valid) simp_all
    then show ?thesis using False by (simp add: m Let_def bit_at_def)
  qed
qed

text \<open>The descents return, and what they return is a slot of the tree.\<close>

lemma update_loop_total:
  assumes "config_ok t" "isValidKey t key"
  shows "keys_valid t n \<Longrightarrow> \<exists>r. update_loop t key n slot m0 = Some r"
proof (induction n arbitrary: slot m0)
  case nilNode
  then show ?case by simp
next
  case (Node k c0 c1 v im)
  then have "\<exists>r. update_loop t key c0 s m = Some r"
    "\<exists>r. update_loop t key c1 s m = Some r" for s m
    by simp_all
  then show ?case
    using Node.prems assms by (simp add: update_loop_Node Let_def del: update_loop.simps)
qed

lemma delete_loop_total:
  assumes "config_ok t" "isValidKey t key"
  shows "keys_valid t n \<Longrightarrow> \<exists>r. delete_loop t key n parent trim trim2 m0 = Some r"
proof (induction n arbitrary: parent trim trim2 m0)
  case nilNode
  then show ?case by simp
next
  case (Node k c0 c1 v im)
  then have "\<exists>r. delete_loop t key c0 p s s2 m = Some r"
    "\<exists>r. delete_loop t key c1 p s s2 m = Some r" for p s s2 m
    by simp_all
  then show ?case
    using Node.prems assms by (simp add: delete_loop_Node Let_def del: delete_loop.simps)
qed

lemma lookup_loop_total:
  assumes "config_ok t" "isValidKey t key"
  shows "keys_valid t n \<Longrightarrow> \<exists>r. lookup_loop t key n found = Some r"
proof (induction n arbitrary: found)
  case nilNode
  then show ?case by simp
next
  case (Node k c0 c1 v im)
  then have "\<exists>r. lookup_loop t key c0 f = Some r"
    "\<exists>r. lookup_loop t key c1 f = Some r" for f
    by simp_all
  then show ?case
    using Node.prems assms by (simp add: lookup_loop_Node Let_def del: lookup_loop.simps)
qed

lemma update_loop_slot:
  "update_loop t key n acc m0 = Some (slot, node, m) \<Longrightarrow>
   \<exists>p. slot = acc @ p \<and> slot_in n p \<and> loadPointer n p = node"
proof (induction n arbitrary: acc m0)
  case nilNode
  then show ?case by simp
next
  case (Node k c0 c1 v im)
  from Node.prems obtain m' where m': "longestPrefixMatch t k key = Some m'"
    by (auto split: Option.bind_splits)
  show ?case
  proof (cases "PrefixLen k \<noteq> m' \<or> PrefixLen k = PrefixLen key \<or> PrefixLen k = maxPrefixLen t")
    case True
    then show ?thesis using Node.prems m' by auto
  next
    case False
    with Node.prems m' obtain b where
      b: "update_loop t key (if b = 0 then c0 else c1) (acc @ [b]) m' = Some (slot, node, m)"
      by (auto split: Option.bind_splits)
    have "\<exists>p. slot = (acc @ [b]) @ p \<and> slot_in (if b = 0 then c0 else c1) p \<and>
        loadPointer (if b = 0 then c0 else c1) p = node"
    proof (cases "b = 0")
      case True
      then show ?thesis using Node.IH(1) [of "acc @ [b]" m'] b by simp
    next
      case False
      then show ?thesis using Node.IH(2) [of "acc @ [b]" m'] b by simp
    qed
    then obtain p where "slot = acc @ (b # p)" "slot_in (Node k c0 c1 v im) (b # p)"
      "loadPointer (Node k c0 c1 v im) (b # p) = node"
      by auto
    then show ?thesis by blast
  qed
qed

lemma update_loop_stop:
  "update_loop t key n acc m0 = Some (slot, Node k c0 c1 v im, m) \<Longrightarrow>
   longestPrefixMatch t k key = Some m \<and>
   (PrefixLen k \<noteq> m \<or> PrefixLen k = PrefixLen key \<or> PrefixLen k = maxPrefixLen t)"
proof (induction n arbitrary: acc m0)
  case nilNode
  then show ?case by simp
next
  case (Node k' c0' c1' v' im')
  from Node.prems obtain m' where m': "longestPrefixMatch t k' key = Some m'"
    by (auto split: Option.bind_splits)
  show ?case
  proof (cases "PrefixLen k' \<noteq> m' \<or> PrefixLen k' = PrefixLen key \<or> PrefixLen k' = maxPrefixLen t")
    case True
    then show ?thesis using Node.prems m' by auto
  next
    case False
    with Node.prems m' obtain b where
      b: "update_loop t key (if b = 0 then c0' else c1') (acc @ [b]) m' =
            Some (slot, Node k c0 c1 v im, m)"
      by (auto split: Option.bind_splits)
    then show ?thesis
      using Node.IH(1) [of "acc @ [b]" m'] Node.IH(2) [of "acc @ [b]" m']
      by (cases "b = 0") simp_all
  qed
qed

text \<open>
  What \<open>Delete\<close>'s descent returns: \<open>trim\<close> is a slot of the tree and holds \<open>node\<close>; at
  the root slot there is no parent, otherwise \<open>trim2\<close> is the slot of the parent and
  \<open>trim\<close> is one of the parent's child slots.
\<close>

lemma delete_loop_slot:
  "delete_loop t key n parent acc acc2 m0 = Some (par, trim, trim2, node, m) \<Longrightarrow>
   \<exists>p. trim = acc @ p \<and> slot_in n p \<and> loadPointer n p = node \<and>
       (if p = [] then par = parent \<and> trim2 = acc2
        else trim2 = acc @ butlast p \<and> par = loadPointer n (butlast p) \<and> par \<noteq> nilNode)"
proof (induction n arbitrary: parent acc acc2 m0)
  case nilNode
  then show ?case by simp
next
  case (Node k c0 c1 v im)
  from Node.prems obtain m' where m': "longestPrefixMatch t k key = Some m'"
    by (auto split: Option.bind_splits)
  show ?case
  proof (cases "PrefixLen k \<noteq> m' \<or> PrefixLen k = PrefixLen key")
    case True
    then show ?thesis using Node.prems m' by auto
  next
    case False
    let ?n = "Node k c0 c1 v im"
    from False Node.prems m' obtain b where
      b: "delete_loop t key (if b = 0 then c0 else c1) ?n (acc @ [b]) acc m' =
            Some (par, trim, trim2, node, m)"
      by (auto split: Option.bind_splits)
    let ?c = "if b = 0 then c0 else c1"
    have "\<exists>p. trim = (acc @ [b]) @ p \<and> slot_in ?c p \<and> loadPointer ?c p = node \<and>
       (if p = [] then par = ?n \<and> trim2 = acc
        else trim2 = (acc @ [b]) @ butlast p \<and> par = loadPointer ?c (butlast p) \<and> par \<noteq> nilNode)"
    proof (cases "b = 0")
      case True
      then show ?thesis using Node.IH(1) [of ?n "acc @ [b]" acc m'] b by simp
    next
      case False
      then show ?thesis using Node.IH(2) [of ?n "acc @ [b]" acc m'] b by simp
    qed
    then obtain p where p: "trim = (acc @ [b]) @ p" "slot_in ?c p" "loadPointer ?c p = node"
      "if p = [] then par = ?n \<and> trim2 = acc
        else trim2 = (acc @ [b]) @ butlast p \<and> par = loadPointer ?c (butlast p) \<and> par \<noteq> nilNode"
      by blast
    have "trim = acc @ (b # p)" "slot_in ?n (b # p)" "loadPointer ?n (b # p) = node"
      using p by simp_all
    moreover have "trim2 = acc @ butlast (b # p) \<and> par = loadPointer ?n (butlast (b # p)) \<and>
        par \<noteq> nilNode"
      using p(4) by (cases "p = []") (auto split: if_splits)
    ultimately show ?thesis by (intro exI [of _ "b # p"]) (auto split: if_splits)
  qed
qed

subsection \<open>Update and Delete by cases\<close>

lemma Update_unfold:
  "Update t key v =
     (if \<not> isValidKey t key then None
      else case update_loop t key (root t) [] 0 of
        None \<Rightarrow> None
      | Some (slot, node, m) \<Rightarrow>
          (case node of
             nilNode \<Rightarrow>
               Some (t\<lparr>size_cnt := size_cnt t + 1,
                       root := storePointer (root t) slot (newLpmTrieNode key v)\<rparr>, False)
           | Node k c0 c1 nv im \<Rightarrow>
               if PrefixLen k = m
               then Some (t\<lparr>size_cnt := (if im then size_cnt t + 1 else size_cnt t),
                            root := storePointer (root t) slot (Node key c0 c1 v False)\<rparr>, True)
               else
                 (case extractBit (Data key) m of
                    None \<Rightarrow> None
                  | Some nextBit \<Rightarrow>
                      Some (t\<lparr>size_cnt := size_cnt t + 1,
                              root := storePointer (root t) slot
                                (if nextBit \<noteq> 0
                                 then Node (key\<lparr>PrefixLen := m\<rparr>) node (newLpmTrieNode key v) None True
                                 else Node (key\<lparr>PrefixLen := m\<rparr>) (newLpmTrieNode key v) node None True)\<rparr>,
                            False))))"
proof -
  have cfg: "update_loop (t\<lparr>size_cnt := size_cnt t + 1\<rparr>) key n s m = update_loop t key n s m"
    for n s m
    by (rule update_loop_config) simp_all
  show ?thesis
    by (auto simp add: Update_def checkKey_def cfg Let_def
        split: option.splits prod.splits lpmTrieNode.splits Option.bind_splits)
qed

lemma Delete_unfold:
  "Delete t key =
     (if \<not> isValidKey t key then None
      else case delete_loop t key (root t) nilNode [] [] 0 of
        None \<Rightarrow> None
      | Some (parent, trim, trim2, node, m) \<Rightarrow>
          (case node of
             nilNode \<Rightarrow> Some (t, False)
           | Node k c0 c1 nv im \<Rightarrow>
               if PrefixLen k \<noteq> PrefixLen key \<or> PrefixLen k \<noteq> m \<or> im then Some (t, False)
               else
                 Some (t\<lparr>size_cnt := size_cnt t - 1,
                         root :=
                           (if c0 \<noteq> nilNode \<and> c1 \<noteq> nilNode
                            then storePointer (root t) trim (Node k c0 c1 None True)
                            else if parent \<noteq> nilNode \<and> isIm parent \<and> c0 = nilNode \<and> c1 = nilNode
                            then storePointer (root t) trim2
                                   (if last trim = 0 then child1 parent else child0 parent)
                            else storePointer (root t) trim
                                   (if c0 \<noteq> nilNode then c0 else c1))\<rparr>, True)))"
  by (auto simp add: Delete_def checkKey_def Let_def
      split: option.splits prod.splits lpmTrieNode.splits Option.bind_splits)

lemma Update_cases:
  assumes "Update t key v = Some (t', u)"
  obtains
    (empty) slot m where "isValidKey t key"
      "update_loop t key (root t) [] 0 = Some (slot, nilNode, m)"
      "slot_in (root t) slot" "loadPointer (root t) slot = nilNode"
      "t' = t\<lparr>size_cnt := size_cnt t + 1,
               root := storePointer (root t) slot (newLpmTrieNode key v)\<rparr>" "\<not> u"
  | (replace) slot m k c0 c1 nv im where "isValidKey t key"
      "update_loop t key (root t) [] 0 = Some (slot, Node k c0 c1 nv im, m)"
      "slot_in (root t) slot" "loadPointer (root t) slot = Node k c0 c1 nv im"
      "PrefixLen k = m"
      "t' = t\<lparr>size_cnt := (if im then size_cnt t + 1 else size_cnt t),
               root := storePointer (root t) slot (Node key c0 c1 v False)\<rparr>" "u"
  | (branch) slot m k c0 c1 nv im nextBit where "isValidKey t key"
      "update_loop t key (root t) [] 0 = Some (slot, Node k c0 c1 nv im, m)"
      "slot_in (root t) slot" "loadPointer (root t) slot = Node k c0 c1 nv im"
      "PrefixLen k \<noteq> m" "extractBit (Data key) m = Some nextBit"
      "t' = t\<lparr>size_cnt := size_cnt t + 1,
               root := storePointer (root t) slot
                 (if nextBit \<noteq> 0
                  then Node (key\<lparr>PrefixLen := m\<rparr>) (Node k c0 c1 nv im) (newLpmTrieNode key v) None True
                  else Node (key\<lparr>PrefixLen := m\<rparr>) (newLpmTrieNode key v) (Node k c0 c1 nv im) None True)\<rparr>"
      "\<not> u"
proof -
  from assms have valid: "isValidKey t key"
    by (simp add: Update_unfold split: if_splits)
  from assms valid obtain slot node m where
    loop: "update_loop t key (root t) [] 0 = Some (slot, node, m)"
    by (auto simp add: Update_unfold split: option.splits)
  from update_loop_slot [OF loop] have sl: "slot_in (root t) slot" "loadPointer (root t) slot = node"
    by auto
  show ?thesis
  proof (cases node)
    case nilNode
    then show ?thesis
      using assms valid loop sl by (intro empty [of slot m]) (auto simp add: Update_unfold)
  next
    case (Node k c0 c1 nv im)
    show ?thesis
    proof (cases "PrefixLen k = m")
      case True
      then show ?thesis
        using assms valid loop sl Node
        by (intro replace [of slot k c0 c1 nv im m]) (auto simp add: Update_unfold)
    next
      case False
      with assms valid loop Node obtain nextBit where "extractBit (Data key) m = Some nextBit"
        by (auto simp add: Update_unfold split: option.splits)
      then show ?thesis
        using assms valid loop sl Node False
        by (intro branch [of slot k c0 c1 nv im m nextBit]) (auto simp add: Update_unfold)
    qed
  qed
qed

lemma Delete_cases:
  assumes "Delete t key = Some (t', d)"
  obtains
    (reject) parent trim trim2 node m where "isValidKey t key"
      "delete_loop t key (root t) nilNode [] [] 0 = Some (parent, trim, trim2, node, m)"
      "node = nilNode \<or> PrefixLen (nkey node) \<noteq> PrefixLen key \<or> PrefixLen (nkey node) \<noteq> m \<or>
       isIm node"
      "t' = t" "\<not> d"
  | (accept) parent trim trim2 m k c0 c1 nv where "isValidKey t key"
      "delete_loop t key (root t) nilNode [] [] 0 =
         Some (parent, trim, trim2, Node k c0 c1 nv False, m)"
      "PrefixLen k = PrefixLen key" "PrefixLen k = m"
      "slot_in (root t) trim" "loadPointer (root t) trim = Node k c0 c1 nv False"
      "trim = [] \<Longrightarrow> parent = nilNode"
      "trim \<noteq> [] \<Longrightarrow> trim2 = butlast trim \<and> parent = loadPointer (root t) trim2 \<and>
         parent \<noteq> nilNode"
      "t' = t\<lparr>size_cnt := size_cnt t - 1,
               root :=
                 (if c0 \<noteq> nilNode \<and> c1 \<noteq> nilNode
                  then storePointer (root t) trim (Node k c0 c1 None True)
                  else if parent \<noteq> nilNode \<and> isIm parent \<and> c0 = nilNode \<and> c1 = nilNode
                  then storePointer (root t) trim2
                         (if last trim = 0 then child1 parent else child0 parent)
                  else storePointer (root t) trim (if c0 \<noteq> nilNode then c0 else c1))\<rparr>"
      "d"
proof -
  from assms have valid: "isValidKey t key"
    by (simp add: Delete_unfold split: if_splits)
  from assms valid obtain parent trim trim2 node m where
    loop: "delete_loop t key (root t) nilNode [] [] 0 = Some (parent, trim, trim2, node, m)"
    by (auto simp add: Delete_unfold split: option.splits)
  from delete_loop_slot [OF loop] have sl: "slot_in (root t) trim" "loadPointer (root t) trim = node"
    "trim = [] \<Longrightarrow> parent = nilNode"
    "trim \<noteq> [] \<Longrightarrow> trim2 = butlast trim \<and> parent = loadPointer (root t) trim2 \<and>
         parent \<noteq> nilNode"
    by (auto split: if_splits)
  show ?thesis
  proof (cases "node = nilNode \<or> PrefixLen (nkey node) \<noteq> PrefixLen key \<or>
      PrefixLen (nkey node) \<noteq> m \<or> isIm node")
    case True
    then show ?thesis
      using assms valid loop
      by (intro reject [of parent trim trim2 node m])
         (auto simp add: Delete_unfold split: lpmTrieNode.splits)
  next
    case False
    then obtain k c0 c1 nv where node: "node = Node k c0 c1 nv False"
      by (cases node) auto
    show ?thesis
      using assms valid loop False sl unfolding node
      by (intro accept [of parent trim trim2 k c0 c1 nv m])
         (auto simp add: Delete_unfold split: if_splits)
  qed
qed

subsection \<open>Size counter and branching of intermediate nodes\<close>

lemma Update_config:
  "Update t key v = Some (t', u) \<Longrightarrow> maxPrefixLen t' = maxPrefixLen t \<and> keySize t' = keySize t"
  by (erule Update_cases) simp_all

lemma Delete_config:
  "Delete t key = Some (t', d) \<Longrightarrow> maxPrefixLen t' = maxPrefixLen t \<and> keySize t' = keySize t"
  by (erule Delete_cases) simp_all

lemma Update_size:
  assumes "Update t key v = Some (t', u)" "size_cnt t = of_nat (count_entries (root t))"
  shows "size_cnt t' = of_nat (count_entries (root t'))"
  using assms(1)
proof (cases rule: Update_cases)
  case (empty slot m)
  then show ?thesis
    using count_entries_storePointer [OF empty(3), of "newLpmTrieNode key v"] assms(2)
    by (simp add: newLpmTrieNode_def)
next
  case (replace slot m k c0 c1 nv im)
  then show ?thesis
    using count_entries_storePointer [OF replace(3), of "Node key c0 c1 v False"] assms(2)
    by (auto split: if_splits)
next
  case (branch slot m k c0 c1 nv im nextBit)
  then show ?thesis
    using count_entries_storePointer [OF branch(3),
        of "Node (key\<lparr>PrefixLen := m\<rparr>) (Node k c0 c1 nv im) (newLpmTrieNode key v) None True"]
      count_entries_storePointer [OF branch(3),
        of "Node (key\<lparr>PrefixLen := m\<rparr>) (newLpmTrieNode key v) (Node k c0 c1 nv im) None True"]
      assms(2)
    by (simp add: newLpmTrieNode_def)
qed

lemma Delete_count:
  assumes "Delete t key = Some (t', d)"
  shows "count_entries (root t') + (if d then 1 else 0) = count_entries (root t)"
  using assms
proof (cases rule: Delete_cases)
  case (reject parent trim trim2 node m)
  then show ?thesis by simp
next
  case (accept parent trim trim2 m k c0 c1 nv)
  let ?node = "Node k c0 c1 nv False"
  show ?thesis
  proof (cases "c0 \<noteq> nilNode \<and> c1 \<noteq> nilNode")
    case True
    then show ?thesis
      using accept count_entries_storePointer [OF accept(5), of "Node k c0 c1 None True"]
      by simp
  next
    case nb: False
    show ?thesis
    proof (cases "parent \<noteq> nilNode \<and> isIm parent \<and> c0 = nilNode \<and> c1 = nilNode")
      case True
      then have ne: "trim \<noteq> []" using accept(7) by auto
      then have t2: "trim = trim2 @ [last trim]" "parent = loadPointer (root t) trim2"
        using accept(8) by simp_all
      obtain pk p0 p1 pv where par: "parent = Node pk p0 p1 pv True"
        using True by (cases parent) auto
      have sl2: "slot_in (root t) trim2"
        using accept(5) t2(1) slot_in_append [of "root t" trim2 "[last trim]"] by simp
      have "loadPointer parent [last trim] = ?node"
        using accept(6) t2 loadPointer_append [of "root t" trim2 "[last trim]"] by simp
      then have ch: "(if last trim = 0 then p0 else p1) = ?node"
        by (simp add: par)
      let ?sib = "if last trim = 0 then child1 parent else child0 parent"
      have "count_entries parent = 1 + count_entries ?sib"
        using ch True by (auto simp add: par split: if_splits)
      moreover have "count_entries (storePointer (root t) trim2 ?sib) + count_entries parent =
          count_entries (root t) + count_entries ?sib"
        using count_entries_storePointer [OF sl2, of ?sib] t2(2) by simp
      ultimately show ?thesis using accept True nb by simp
    next
      case False
      then show ?thesis
        using accept nb
          count_entries_storePointer [OF accept(5), of "if c0 \<noteq> nilNode then c0 else c1"]
        by auto
    qed
  qed
qed

lemma Delete_size:
  assumes "Delete t key = Some (t', d)" "size_cnt t = of_nat (count_entries (root t))"
  shows "size_cnt t' = of_nat (count_entries (root t'))"
proof (cases d)
  case True
  then have "count_entries (root t) = Suc (count_entries (root t'))"
    using Delete_count [OF assms(1)] by simp
  moreover have "size_cnt t' = size_cnt t - 1"
    using assms(1) by (cases rule: Delete_cases) (use True in simp_all)
  ultimately show ?thesis using assms(2) by simp
next
  case False
  have "t' = t" using assms(1) by (cases rule: Delete_cases) (use False in simp_all)
  then show ?thesis using assms(2) by simp
qed

lemma Update_im_branching:
  assumes "Update t key v = Some (t', u)" "im_branching (root t)"
  shows "im_branching (root t')"
  using assms(1)
proof (cases rule: Update_cases)
  case (empty slot m)
  have "im_branching (storePointer (root t) slot (newLpmTrieNode key v))"
    using empty(3) assms(2)
    by (rule im_branching_storePointer) (simp_all add: newLpmTrieNode_def)
  then show ?thesis using empty by simp
next
  case (replace slot m k c0 c1 nv im)
  have "im_branching (Node k c0 c1 nv im)"
    using im_branching_loadPointer [OF assms(2), of slot] replace(4) by simp
  then have "im_branching (storePointer (root t) slot (Node key c0 c1 v False))"
    using replace(3) assms(2) by (intro im_branching_storePointer) simp_all
  then show ?thesis using replace by simp
next
  case (branch slot m k c0 c1 nv im nextBit)
  have "im_branching (Node k c0 c1 nv im)"
    using im_branching_loadPointer [OF assms(2), of slot] branch(4) by simp
  then have "im_branching (storePointer (root t) slot
      (if nextBit \<noteq> 0
       then Node (key\<lparr>PrefixLen := m\<rparr>) (Node k c0 c1 nv im) (newLpmTrieNode key v) None True
       else Node (key\<lparr>PrefixLen := m\<rparr>) (newLpmTrieNode key v) (Node k c0 c1 nv im) None True))"
    using branch(3) assms(2)
    by (intro im_branching_storePointer) (simp_all add: newLpmTrieNode_def split: if_splits)
  then show ?thesis using branch by simp
qed

lemma Delete_im_branching:
  assumes "Delete t key = Some (t', d)" "im_branching (root t)"
  shows "im_branching (root t')"
  using assms(1)
proof (cases rule: Delete_cases)
  case (reject parent trim trim2 node m)
  then show ?thesis using assms(2) by simp
next
  case (accept parent trim trim2 m k c0 c1 nv)
  let ?node = "Node k c0 c1 nv False"
  have node: "im_branching ?node"
    using im_branching_loadPointer [OF assms(2), of trim] accept(6) by simp
  show ?thesis
  proof (cases "c0 \<noteq> nilNode \<and> c1 \<noteq> nilNode")
    case True
    then have "im_branching (storePointer (root t) trim (Node k c0 c1 None True))"
      using accept(5) node assms(2) by (intro im_branching_storePointer) simp_all
    then show ?thesis using accept True by simp
  next
    case nb: False
    show ?thesis
    proof (cases "parent \<noteq> nilNode \<and> isIm parent \<and> c0 = nilNode \<and> c1 = nilNode")
      case True
      then have ne: "trim \<noteq> []" using accept(7) by auto
      then have t2: "trim = trim2 @ [last trim]" "parent = loadPointer (root t) trim2"
        using accept(8) by simp_all
      obtain pk p0 p1 pv where par: "parent = Node pk p0 p1 pv True"
        using True by (cases parent) auto
      have sl2: "slot_in (root t) trim2"
        using accept(5) t2(1) slot_in_append [of "root t" trim2 "[last trim]"] by simp
      have pb: "im_branching parent"
        using im_branching_loadPointer [OF assms(2), of trim2] t2(2) by simp
      let ?sib = "if last trim = 0 then child1 parent else child0 parent"
      have "im_branching ?sib" "?sib \<noteq> nilNode"
        using pb by (auto simp add: par)
      then have "im_branching (storePointer (root t) trim2 ?sib)"
        using sl2 assms(2) by (intro im_branching_storePointer) simp_all
      then show ?thesis using accept True nb by simp
    next
      case False
      let ?new = "if c0 \<noteq> nilNode then c0 else c1"
      have "im_branching (storePointer (root t) trim ?new)"
      proof (rule im_branching_storePointer [OF accept(5) assms(2)])
        show "im_branching ?new" using node by simp
        assume "?new = nilNode"
        then have leaf: "c0 = nilNode" "c1 = nilNode" by (auto split: if_splits)
        show "trim = [] \<or> \<not> isIm (loadPointer (root t) (butlast trim))"
          using False leaf accept(8) by auto
      qed
      then show ?thesis using accept nb False by simp
    qed
  qed
qed

subsection \<open>Valid keys and totality\<close>

lemma Update_keys_valid:
  assumes "Update t key v = Some (t', u)" "keys_valid t (root t)"
  shows "keys_valid t' (root t')"
proof -
  have cfg: "keys_valid t' n = keys_valid t n" for n
    using Update_config [OF assms(1)] by (intro keys_valid_config) simp_all
  from assms(1) have "keys_valid t (root t')"
  proof (cases rule: Update_cases)
    case (empty slot m)
    then show ?thesis
      using assms(2) by (simp add: keys_valid_storePointer newLpmTrieNode_def)
  next
    case (replace slot m k c0 c1 nv im)
    have "keys_valid t (Node k c0 c1 nv im)"
      using keys_valid_loadPointer [OF assms(2), of slot] replace(4) by simp
    then show ?thesis
      using assms(2) replace by (simp add: keys_valid_storePointer)
  next
    case (branch slot m k c0 c1 nv im nextBit)
    have node: "keys_valid t (Node k c0 c1 nv im)"
      using keys_valid_loadPointer [OF assms(2), of slot] branch(4) by simp
    then have "longestPrefixMatch t k key = Some (bitwise_match k key)"
      using branch(1) by (simp add: longestPrefixMatch_valid)
    then have m: "m = bitwise_match k key"
      using update_loop_stop [OF branch(2)] by simp
    have "0 \<le> m" "m \<le> maxPrefixLen t"
      using m node branch(1) bitwise_match_le(2) [of k key] bitwise_match_nonneg [of k key]
      by (simp_all add: isValidKey_def)
    then have "isValidKey t (key\<lparr>PrefixLen := m\<rparr>)"
      using branch(1) by (simp add: isValidKey_def)
    then show ?thesis
      using assms(2) branch node by (simp add: keys_valid_storePointer newLpmTrieNode_def)
  qed
  then show ?thesis by (simp add: cfg)
qed

lemma Update_total:
  assumes "config_ok t" "keys_valid t (root t)" "isValidKey t key"
  shows "\<exists>t' u. Update t key v = Some (t', u)"
proof -
  obtain slot node m where loop: "update_loop t key (root t) [] 0 = Some (slot, node, m)"
    using update_loop_total [OF assms(1,3,2), of "[]" 0] by auto
  from update_loop_slot [OF loop] have sl: "loadPointer (root t) slot = node" by auto
  show ?thesis
  proof (cases node)
    case nilNode
    then show ?thesis using assms(3) loop by (auto simp add: Update_unfold)
  next
    case (Node k c0 c1 nv im)
    have node: "isValidKey t k"
      using keys_valid_loadPointer [OF assms(2), of slot] sl Node by simp
    then have "longestPrefixMatch t k key = Some (bitwise_match k key)"
      using assms(3) by (simp add: longestPrefixMatch_valid)
    then have m: "m = bitwise_match k key"
      using update_loop_stop [OF loop [unfolded Node]] by simp
    show ?thesis
    proof (cases "PrefixLen k = m")
      case True
      then show ?thesis using assms(3) loop Node by (auto simp add: Update_unfold)
    next
      case False
      then have "m < PrefixLen k" using m bitwise_match_le(1) [of k key] by simp
      then have "0 \<le> m" "m < maxPrefixLen t"
        using m node assms(3) bitwise_match_nonneg [of k key] by (simp_all add: isValidKey_def)
      then obtain nb where "extractBit (Data key) m = Some nb"
        using extractBit_valid [OF assms(1,3)] by blast
      then show ?thesis using assms(3) loop Node False by (auto simp add: Update_unfold)
    qed
  qed
qed

lemma Delete_keys_valid:
  assumes "Delete t key = Some (t', d)" "keys_valid t (root t)"
  shows "keys_valid t' (root t')"
proof -
  have cfg: "keys_valid t' n = keys_valid t n" for n
    using Delete_config [OF assms(1)] by (intro keys_valid_config) simp_all
  from assms(1) have "keys_valid t (root t')"
  proof (cases rule: Delete_cases)
    case (reject parent trim trim2 node m)
    then show ?thesis using assms(2) by simp
  next
    case (accept parent trim trim2 m k c0 c1 nv)
    have node: "keys_valid t (Node k c0 c1 nv False)"
      using keys_valid_loadPointer [OF assms(2), of trim] accept(6) by simp
    have par: "keys_valid t parent"
    proof (cases "trim = []")
      case True
      then show ?thesis using accept(7) by simp
    next
      case False
      then have "parent = loadPointer (root t) trim2" using accept(8) by simp
      then show ?thesis using keys_valid_loadPointer [OF assms(2), of trim2] by simp
    qed
    have sib: "keys_valid t (child0 parent) \<and> keys_valid t (child1 parent)"
      if "parent \<noteq> nilNode"
      using par that by (cases parent) simp_all
    have "keys_valid t (storePointer (root t) trim (Node k c0 c1 None True))"
      "parent \<noteq> nilNode \<Longrightarrow> keys_valid t (storePointer (root t) trim2
         (if last trim = 0 then child1 parent else child0 parent))"
      "keys_valid t (storePointer (root t) trim (if c0 \<noteq> nilNode then c0 else c1))"
      using assms(2) node sib by (simp_all add: keys_valid_storePointer)
    then show ?thesis
      unfolding accept(9) by (auto split: if_splits)
  qed
  then show ?thesis by (simp add: cfg)
qed

lemma Delete_total:
  assumes "config_ok t" "keys_valid t (root t)" "isValidKey t key"
  shows "\<exists>t' d. Delete t key = Some (t', d)"
proof -
  obtain parent trim trim2 node m where
    "delete_loop t key (root t) nilNode [] [] 0 = Some (parent, trim, trim2, node, m)"
    using delete_loop_total [OF assms(1,3,2), of nilNode "[]" "[]" 0] by auto
  then have "Delete t key \<noteq> None"
    using assms(3) by (cases node) (auto simp add: Delete_unfold)
  then show ?thesis by auto
qed

lemma Lookup_total:
  assumes "config_ok t" "keys_valid t (root t)" "isValidKey t key"
  shows "\<exists>r. Lookup t key = Some r"
proof -
  obtain r where "lookup_loop t key (root t) nilNode = Some r"
    using lookup_loop_total [OF assms(1,3,2)] by blast
  then show ?thesis
    using assms(3) by (cases r) (auto simp add: Lookup_def checkKey_def)
qed

subsection \<open>Call sequences\<close>

lemma New_ok: "New m = Inr t \<Longrightarrow> trie_ok t"
  by (auto simp add: New_def trie_ok_def config_ok_def signed_divide_int_def
      signed_modulo_int_def sgn_if split: if_splits)

lemma apply_call_ok:
  assumes "trie_ok t" "isValidKey t (call_key c)"
  shows "\<exists>t'. apply_call t c = Some t' \<and> trie_ok t' \<and>
           maxPrefixLen t' = maxPrefixLen t \<and> keySize t' = keySize t"
proof (cases c)
  case (CallUpdate key v)
  then obtain t' u where u: "Update t key v = Some (t', u)"
    using Update_total [of t key v] assms by (auto simp add: trie_ok_def)
  have cfg: "maxPrefixLen t' = maxPrefixLen t \<and> keySize t' = keySize t"
    using Update_config [OF u] .
  then have "config_ok t'" using assms(1) by (simp add: trie_ok_def config_ok_def)
  then have "trie_ok t'"
    using assms(1) Update_keys_valid [OF u] Update_im_branching [OF u] Update_size [OF u]
    by (simp add: trie_ok_def)
  then show ?thesis using u cfg CallUpdate by simp
next
  case (CallDelete key)
  then obtain t' d where d: "Delete t key = Some (t', d)"
    using Delete_total [of t key] assms by (auto simp add: trie_ok_def)
  have cfg: "maxPrefixLen t' = maxPrefixLen t \<and> keySize t' = keySize t"
    using Delete_config [OF d] .
  then have "config_ok t'" using assms(1) by (simp add: trie_ok_def config_ok_def)
  then have "trie_ok t'"
    using assms(1) Delete_keys_valid [OF d] Delete_im_branching [OF d] Delete_size [OF d]
    by (simp add: trie_ok_def)
  then show ?thesis using d cfg CallDelete by simp
qed

lemma run_calls_ok:
  assumes "trie_ok t" "\<forall>c \<in> set cs. isValidKey t (call_key c)"
  shows "\<exists>t'. run_calls t cs = Some t' \<and> trie_ok t' \<and>
           maxPrefixLen t' = maxPrefixLen t \<and> keySize t' = keySize t"
  using assms
proof (induction cs arbitrary: t)
  case Nil
  then show ?case by simp
next
  case (Cons c cs)
  then obtain t1 where t1: "apply_call t c = Some t1" "trie_ok t1"
    "maxPrefixLen t1 = maxPrefixLen t" "keySize t1 = keySize t"
    using apply_call_ok [of t c] by auto
  have "isValidKey t1 = isValidKey t"
    using t1(3,4) by (intro isValidKey_config) simp_all
  then have "\<forall>c \<in> set cs. isValidKey t1 (call_key c)" using Cons.prems(2) by simp
  from Cons.IH [OF t1(2) this] show ?case using t1 by auto
qed

subsection \<open>Size\<close>

lemma sint_of_nat_small:
  assumes "n < 2 ^ 63"
  shows "sint (of_nat n :: 64 word) = int n"
proof -
  have "signed_take_bit 63 (int n) = int n"
    using assms by (intro signed_take_bit_int_eq_self) simp_all
  then show ?thesis by (simp add: signed_of_nat)
qed

text \<open>
  Claim C4. After every finite sequence of \<open>Update\<close> and \<open>Delete\<close> calls with valid
  keys on a freshly constructed trie, no call having panicked, \<open>Size\<close> is the number of
  reachable nodes whose intermediate flag is false (as an \<open>int64\<close>: modulo \<open>2^64\<close>,
  and exactly while that number is below \<open>2^63\<close>).
\<close>

theorem Size_counts_entries:
  assumes "New m = Inr t0" "\<forall>c \<in> set cs. isValidKey t0 (call_key c)"
  shows "\<exists>t. run_calls t0 cs = Some t \<and>
           Size t = of_nat (count_entries (root t)) \<and>
           (count_entries (root t) < 2 ^ 63 \<longrightarrow> sint (Size t) = int (count_entries (root t)))"
proof -
  obtain t where t: "run_calls t0 cs = Some t" "trie_ok t"
    using run_calls_ok [OF New_ok [OF assms(1)] assms(2)] by blast
  then have "Size t = of_nat (count_entries (root t))"
    by (simp add: trie_ok_def Size_def)
  then show ?thesis using t(1) by (simp add: sint_of_nat_small)
qed

theorem Size_counts_entries_witness:
  "\<exists>t. run_calls \<lparr>root = nilNode, size_cnt = 0, maxPrefixLen = 8, keySize = 1\<rparr>
          [CallUpdate \<lparr>PrefixLen = 8, Data = [160]\<rparr> (Some (1::nat)),
           CallUpdate \<lparr>PrefixLen = 8, Data = [32]\<rparr> (Some 2),
           CallDelete \<lparr>PrefixLen = 8, Data = [160]\<rparr>] = Some t \<and>
        Size t = 1 \<and> count_entries (root t) = 1"
proof -
  let ?t0 = "\<lparr>root = nilNode, size_cnt = 0, maxPrefixLen = 8, keySize = 1\<rparr> :: nat lpmTrie"
  let ?cs = "[CallUpdate \<lparr>PrefixLen = 8, Data = [160]\<rparr> (Some (1::nat)),
           CallUpdate \<lparr>PrefixLen = 8, Data = [32]\<rparr> (Some 2),
           CallDelete \<lparr>PrefixLen = 8, Data = [160]\<rparr>]"
  have new: "New 8 = Inr ?t0"
    by (simp add: New_def signed_divide_int_def signed_modulo_int_def)
  have valid: "\<forall>c \<in> set ?cs. isValidKey ?t0 (call_key c)"
    by (simp add: isValidKey_def)
  have run: "run_calls ?t0 ?cs =
      Some \<lparr>root = Node \<lparr>PrefixLen = 8, Data = [32]\<rparr> nilNode nilNode (Some 2) False,
            size_cnt = 1, maxPrefixLen = 8, keySize = 1\<rparr>"
    by code_simp
  from Size_counts_entries [OF new valid] show ?thesis
    unfolding run by (simp add: Size_def)
qed

subsection \<open>Branching of intermediate nodes\<close>

text \<open>
  Claim C10. After every finite sequence of \<open>Update\<close> and \<open>Delete\<close> calls with valid
  keys on a freshly constructed trie, no call having panicked, every reachable node whose
  intermediate flag is true has both child slots occupied.
\<close>

theorem intermediate_nodes_branch:
  assumes "New m = Inr t0" "\<forall>c \<in> set cs. isValidKey t0 (call_key c)"
  shows "\<exists>t. run_calls t0 cs = Some t \<and> im_branching (root t)"
proof -
  obtain t where t: "run_calls t0 cs = Some t" "trie_ok t"
    using run_calls_ok [OF New_ok [OF assms(1)] assms(2)] by blast
  then show ?thesis by (auto simp add: trie_ok_def)
qed

theorem intermediate_nodes_branch_witness:
  "run_calls \<lparr>root = nilNode, size_cnt = 0, maxPrefixLen = 8, keySize = 1\<rparr>
          [CallUpdate \<lparr>PrefixLen = 8, Data = [160]\<rparr> (Some (1::nat)),
           CallUpdate \<lparr>PrefixLen = 8, Data = [32]\<rparr> (Some 2),
           CallUpdate \<lparr>PrefixLen = 8, Data = [33]\<rparr> (Some 3),
           CallDelete \<lparr>PrefixLen = 8, Data = [160]\<rparr>] =
     Some \<lparr>root = Node \<lparr>PrefixLen = 7, Data = [33]\<rparr>
             (Node \<lparr>PrefixLen = 8, Data = [32]\<rparr> nilNode nilNode (Some 2) False)
             (Node \<lparr>PrefixLen = 8, Data = [33]\<rparr> nilNode nilNode (Some 3) False) None True,
           size_cnt = 2, maxPrefixLen = 8, keySize = 1\<rparr> \<and>
   im_branching (Node \<lparr>PrefixLen = 7, Data = [33]\<rparr>
             (Node \<lparr>PrefixLen = 8, Data = [32]\<rparr> nilNode nilNode (Some (2::nat)) False)
             (Node \<lparr>PrefixLen = 8, Data = [33]\<rparr> nilNode nilNode (Some 3) False) None True)"
proof -
  let ?t0 = "\<lparr>root = nilNode, size_cnt = 0, maxPrefixLen = 8, keySize = 1\<rparr> :: nat lpmTrie"
  let ?cs = "[CallUpdate \<lparr>PrefixLen = 8, Data = [160]\<rparr> (Some (1::nat)),
           CallUpdate \<lparr>PrefixLen = 8, Data = [32]\<rparr> (Some 2),
           CallUpdate \<lparr>PrefixLen = 8, Data = [33]\<rparr> (Some 3),
           CallDelete \<lparr>PrefixLen = 8, Data = [160]\<rparr>]"
  have new: "New 8 = Inr ?t0"
    by (simp add: New_def signed_divide_int_def signed_modulo_int_def)
  have valid: "\<forall>c \<in> set ?cs. isValidKey ?t0 (call_key c)"
    by (simp add: isValidKey_def)
  have run: "run_calls ?t0 ?cs =
     Some \<lparr>root = Node \<lparr>PrefixLen = 7, Data = [33]\<rparr>
             (Node \<lparr>PrefixLen = 8, Data = [32]\<rparr> nilNode nilNode (Some 2) False)
             (Node \<lparr>PrefixLen = 8, Data = [33]\<rparr> nilNode nilNode (Some 3) False) None True,
           size_cnt = 2, maxPrefixLen = 8, keySize = 1\<rparr>"
    by code_simp
  from intermediate_nodes_branch [OF new valid] show ?thesis
    unfolding run by simp
qed

text \<open>
  Claim C6. For every trie whose stored keys are valid and every valid key, \<open>Delete\<close>
  returns; it returns false and leaves the whole trie (tree and size counter) unchanged
  unless the node at which its descent stops exists, has the prefix length of the key and
  of the last match length, and is not intermediate; in that case it returns true.
\<close>

theorem Delete_rejects:
  assumes "config_ok t" "keys_valid t (root t)" "isValidKey t key"
  shows "\<exists>parent trim trim2 node m t' deleted.
     delete_loop t key (root t) nilNode [] [] 0 = Some (parent, trim, trim2, node, m) \<and>
     Delete t key = Some (t', deleted) \<and>
     (if node \<noteq> nilNode \<and> PrefixLen (nkey node) = PrefixLen key \<and>
         PrefixLen (nkey node) = m \<and> \<not> isIm node
      then deleted else \<not> deleted \<and> t' = t)"
proof -
  obtain t' d where d: "Delete t key = Some (t', d)"
    using Delete_total [OF assms] by blast
  then show ?thesis
  proof (cases rule: Delete_cases)
    case (reject parent trim trim2 node m)
    then show ?thesis using d by auto
  next
    case (accept parent trim trim2 m k c0 c1 nv)
    then show ?thesis using d by auto
  qed
qed

theorem Delete_rejects_witness:
  "Delete \<lparr>root = Node \<lparr>PrefixLen = 0, Data = [32]\<rparr>
             (Node \<lparr>PrefixLen = 8, Data = [32]\<rparr> nilNode nilNode (Some (2::nat)) False)
             (Node \<lparr>PrefixLen = 8, Data = [160]\<rparr> nilNode nilNode (Some 1) False) None True,
           size_cnt = 2, maxPrefixLen = 8, keySize = 1\<rparr> \<lparr>PrefixLen = 0, Data = [0]\<rparr> =
   Some (\<lparr>root = Node \<lparr>PrefixLen = 0, Data = [32]\<rparr>
             (Node \<lparr>PrefixLen = 8, Data = [32]\<rparr> nilNode nilNode (Some (2::nat)) False)
             (Node \<lparr>PrefixLen = 8, Data = [160]\<rparr> nilNode nilNode (Some 1) False) None True,
           size_cnt = 2, maxPrefixLen = 8, keySize = 1\<rparr>, False)"
proof -
  let ?root = "Node \<lparr>PrefixLen = 0, Data = [32]\<rparr>
             (Node \<lparr>PrefixLen = 8, Data = [32]\<rparr> nilNode nilNode (Some (2::nat)) False)
             (Node \<lparr>PrefixLen = 8, Data = [160]\<rparr> nilNode nilNode (Some 1) False) None True"
  let ?t = "\<lparr>root = ?root, size_cnt = 2, maxPrefixLen = 8, keySize = 1\<rparr>"
  let ?key = "\<lparr>PrefixLen = 0, Data = [0]\<rparr>"
  have c: "config_ok ?t" by (simp add: config_ok_def)
  have k: "keys_valid ?t (root ?t)" by (simp add: isValidKey_def)
  have v: "isValidKey ?t ?key" by (simp add: isValidKey_def)
  have loop: "delete_loop ?t ?key ?root nilNode [] [] 0 = Some (nilNode, [], [], ?root, 0)"
    by code_simp
  from Delete_rejects [OF c k v] show ?thesis
    unfolding select_convs loop by auto
qed

subsection \<open>Replacement by Update, construction\<close>

text \<open>
  Claim C7. Whenever the descent of \<open>Update\<close> stops at an existing node whose prefix
  length equals the last match length, the new node takes over that node's two child
  slots and is stored into the slot the node was loaded from, \<open>Update\<close> returns true,
  also when the replaced node is intermediate, and the size counter stays as it was when
  the replaced node was not intermediate and is one greater when it was.
\<close>

theorem Update_replaces:
  assumes "isValidKey t key"
    and "update_loop t key (root t) [] 0 = Some (slot, Node k c0 c1 nv im, m)"
    and "PrefixLen k = m"
  shows "slot_in (root t) slot \<and> loadPointer (root t) slot = Node k c0 c1 nv im \<and>
     Update t key v =
       Some (t\<lparr>size_cnt := (if im then size_cnt t + 1 else size_cnt t),
               root := storePointer (root t) slot (Node key c0 c1 v False)\<rparr>, True) \<and>
     loadPointer (storePointer (root t) slot (Node key c0 c1 v False)) slot =
       Node key c0 c1 v False"
proof -
  from update_loop_slot [OF assms(2)]
  have sl: "slot_in (root t) slot" "loadPointer (root t) slot = Node k c0 c1 nv im"
    by auto
  then show ?thesis
    using assms by (simp add: Update_unfold loadPointer_storePointer)
qed

theorem Update_replaces_witness:
  "Lookup \<lparr>root = Node \<lparr>PrefixLen = 0, Data = [32]\<rparr>
             (Node \<lparr>PrefixLen = 8, Data = [32]\<rparr> nilNode nilNode (Some (2::nat)) False)
             (Node \<lparr>PrefixLen = 8, Data = [160]\<rparr> nilNode nilNode (Some 1) False) None True,
           size_cnt = 2, maxPrefixLen = 8, keySize = 1\<rparr> \<lparr>PrefixLen = 0, Data = [0]\<rparr> =
     Some (None, False) \<and>
   Update \<lparr>root = Node \<lparr>PrefixLen = 0, Data = [32]\<rparr>
             (Node \<lparr>PrefixLen = 8, Data = [32]\<rparr> nilNode nilNode (Some (2::nat)) False)
             (Node \<lparr>PrefixLen = 8, Data = [160]\<rparr> nilNode nilNode (Some 1) False) None True,
           size_cnt = 2, maxPrefixLen = 8, keySize = 1\<rparr> \<lparr>PrefixLen = 0, Data = [0]\<rparr> (Some 3) =
     Some (\<lparr>root = Node \<lparr>PrefixLen = 0, Data = [0]\<rparr>
             (Node \<lparr>PrefixLen = 8, Data = [32]\<rparr> nilNode nilNode (Some (2::nat)) False)
             (Node \<lparr>PrefixLen = 8, Data = [160]\<rparr> nilNode nilNode (Some 1) False) (Some 3) False,
           size_cnt = 3, maxPrefixLen = 8, keySize = 1\<rparr>, True)"
proof -
  let ?c0 = "Node \<lparr>PrefixLen = 8, Data = [32]\<rparr> nilNode nilNode (Some (2::nat)) False"
  let ?c1 = "Node \<lparr>PrefixLen = 8, Data = [160]\<rparr> nilNode nilNode (Some (1::nat)) False"
  let ?root = "Node \<lparr>PrefixLen = 0, Data = [32]\<rparr> ?c0 ?c1 None True"
  let ?t = "\<lparr>root = ?root, size_cnt = 2, maxPrefixLen = 8, keySize = 1\<rparr>"
  let ?key = "\<lparr>PrefixLen = 0, Data = [0]\<rparr>"
  have v: "isValidKey ?t ?key" by (simp add: isValidKey_def)
  have loop: "update_loop ?t ?key (root ?t) [] 0 =
      Some ([], Node \<lparr>PrefixLen = 0, Data = [32]\<rparr> ?c0 ?c1 None True, 0)"
    by code_simp
  have p: "PrefixLen \<lparr>PrefixLen = 0, Data = [32]\<rparr> = 0" by simp
  have look: "Lookup ?t ?key = Some (None, False)" by code_simp
  from Update_replaces [OF v loop p, of "Some 3"] look show ?thesis
    by simp
qed

text \<open>
  Claim C9. \<open>New\<close> returns an error value exactly when \<open>maxPrefixLen\<close> is not positive
  or not a multiple of 8; otherwise it returns a trie with \<open>keySize = maxPrefixLen / 8\<close>
  that is empty: its size is 0, \<open>Lookup\<close> of every valid key returns not found, and
  \<open>Range\<close> does not call its visitor.
\<close>

theorem New_returns:
  "((\<exists>e. (New m :: string + 'v lpmTrie) = Inl e) \<longleftrightarrow> m \<le> 0 \<or> \<not> 8 dvd m) \<and>
   (\<forall>t :: 'v lpmTrie. New m = Inr t \<longrightarrow>
      maxPrefixLen t = m \<and> keySize t = m div 8 \<and> root t = nilNode \<and> Size t = 0 \<and>
      (\<forall>key. isValidKey t key \<longrightarrow> Lookup t key = Some (None, False)) \<and>
      (\<forall>(fn :: Key \<Rightarrow> 'v option \<Rightarrow> 's \<Rightarrow> bool \<times> 's) s.
         traverse fn (root t) s = (False, s) \<and> Range_trie t fn s = s))"
proof -
  have sm: "m smod 8 = 0 \<longleftrightarrow> 8 dvd m" if "0 < m"
    using that by (simp add: signed_modulo_int_def sgn_if mod_eq_0_iff_dvd)
  have sd: "m sdiv 8 = m div 8" if "0 < m"
    using that by (simp add: signed_divide_int_def sgn_if)
  show ?thesis
    using sm sd
    by (auto simp add: New_def Size_def Lookup_def checkKey_def Range_trie_def)
qed

theorem New_returns_witness:
  "(New 32 :: string + nat lpmTrie) =
      Inr \<lparr>root = nilNode, size_cnt = 0, maxPrefixLen = 32, keySize = 4\<rparr> \<and>
   Lookup \<lparr>root = nilNode, size_cnt = 0, maxPrefixLen = 32, keySize = 4\<rparr>
      \<lparr>PrefixLen = 32, Data = [0, 0, 0, 0]\<rparr> = Some (None :: nat option, False) \<and>
   (New 12 :: string + nat lpmTrie) = Inl ''maxPrefixLen must be positive and be times of 8''"
proof -
  let ?t = "\<lparr>root = nilNode, size_cnt = 0, maxPrefixLen = 32, keySize = 4\<rparr> :: nat lpmTrie"
  have n: "(New 32 :: string + nat lpmTrie) = Inr ?t"
    by (simp add: New_def signed_divide_int_def signed_modulo_int_def)
  have v: "isValidKey ?t \<lparr>PrefixLen = 32, Data = [0, 0, 0, 0]\<rparr>"
    by (simp add: isValidKey_def)
  have e: "(New 12 :: string + nat lpmTrie) = Inl ''maxPrefixLen must be positive and be times of 8''"
    by (simp add: New_def signed_modulo_int_def)
  from New_returns [of 32, where ?'v = nat] n v e show ?thesis
    by auto
qed

subsection \<open>The missing ancestor case of Update\<close>

text \<open>
  Claim C2 does not hold of the code. \<open>Update\<close> of a key that is a proper prefix of the
  node at which the descent stops builds an intermediate node of the new key's prefix
  length and hangs the new node, of the same prefix length, below it.
\<close>

theorem ancestor_insert_breaks_prefixLen_order:
  "(New 8 :: string + nat lpmTrie) =
     Inr \<lparr>root = nilNode, size_cnt = 0, maxPrefixLen = 8, keySize = 1\<rparr> \<and>
   isValidKey (\<lparr>root = nilNode, size_cnt = 0, maxPrefixLen = 8, keySize = 1\<rparr> :: nat lpmTrie)
     \<lparr>PrefixLen = 8, Data = [0]\<rparr> \<and>
   isValidKey (\<lparr>root = nilNode, size_cnt = 0, maxPrefixLen = 8, keySize = 1\<rparr> :: nat lpmTrie)
     \<lparr>PrefixLen = 0, Data = [0]\<rparr> \<and>
   run_calls \<lparr>root = nilNode, size_cnt = 0, maxPrefixLen = 8, keySize = 1\<rparr>
     [CallUpdate \<lparr>PrefixLen = 8, Data = [0]\<rparr> (Some (1::nat)),
      CallUpdate \<lparr>PrefixLen = 0, Data = [0]\<rparr> (Some 2)] =
     Some \<lparr>root = Node \<lparr>PrefixLen = 0, Data = [0]\<rparr>
             (Node \<lparr>PrefixLen = 0, Data = [0]\<rparr> nilNode nilNode (Some 2) False)
             (Node \<lparr>PrefixLen = 8, Data = [0]\<rparr> nilNode nilNode (Some 1) False) None True,
           size_cnt = 2, maxPrefixLen = 8, keySize = 1\<rparr> \<and>
   \<not> prefixLen_increasing
       (Node \<lparr>PrefixLen = 0, Data = [0]\<rparr>
          (Node \<lparr>PrefixLen = 0, Data = [0]\<rparr> nilNode nilNode (Some (2::nat)) False)
          (Node \<lparr>PrefixLen = 8, Data = [0]\<rparr> nilNode nilNode (Some 1) False) None True)"
proof -
  have "(New 8 :: string + nat lpmTrie) =
     Inr \<lparr>root = nilNode, size_cnt = 0, maxPrefixLen = 8, keySize = 1\<rparr>"
    by (simp add: New_def signed_divide_int_def signed_modulo_int_def)
  moreover have "run_calls \<lparr>root = nilNode, size_cnt = 0, maxPrefixLen = 8, keySize = 1\<rparr>
     [CallUpdate \<lparr>PrefixLen = 8, Data = [0]\<rparr> (Some (1::nat)),
      CallUpdate \<lparr>PrefixLen = 0, Data = [0]\<rparr> (Some 2)] =
     Some \<lparr>root = Node \<lparr>PrefixLen = 0, Data = [0]\<rparr>
             (Node \<lparr>PrefixLen = 0, Data = [0]\<rparr> nilNode nilNode (Some 2) False)
             (Node \<lparr>PrefixLen = 8, Data = [0]\<rparr> nilNode nilNode (Some 1) False) None True,
           size_cnt = 2, maxPrefixLen = 8, keySize = 1\<rparr>"
    by code_simp
  ultimately show ?thesis by (simp add: isValidKey_def)
qed

theorem ancestor_insert_breaks_prefixLen_order_witness:
  "\<exists>t. run_calls \<lparr>root = nilNode, size_cnt = 0, maxPrefixLen = 8, keySize = 1\<rparr>
     [CallUpdate \<lparr>PrefixLen = 8, Data = [0]\<rparr> (Some (1::nat)),
      CallUpdate \<lparr>PrefixLen = 0, Data = [0]\<rparr> (Some 2)] = Some t \<and>
     \<not> prefixLen_increasing (root t)"
  using ancestor_insert_breaks_prefixLen_order by simp

text \<open>
  Claim C3 does not hold of the code. In the trie that holds the one key \<open>00000000/8\<close>
  the key \<open>/0\<close> is not present; \<open>Update\<close> of it and then \<open>Delete\<close> of it leave the
  size at 2 instead of 1 (the \<open>Delete\<close> is rejected, the descent stops at the new
  intermediate node) and change the result of \<open>Lookup\<close> for \<open>00000000/8\<close>.
\<close>

theorem ancestor_insert_not_undone:
  "Update \<lparr>root = nilNode, size_cnt = 0, maxPrefixLen = 8, keySize = 1\<rparr>
     \<lparr>PrefixLen = 8, Data = [0]\<rparr> (Some (1::nat)) =
     Some (\<lparr>root = Node \<lparr>PrefixLen = 8, Data = [0]\<rparr> nilNode nilNode (Some 1) False,
            size_cnt = 1, maxPrefixLen = 8, keySize = 1\<rparr>, False) \<and>
   Lookup \<lparr>root = Node \<lparr>PrefixLen = 8, Data = [0]\<rparr> nilNode nilNode (Some (1::nat)) False,
            size_cnt = 1, maxPrefixLen = 8, keySize = 1\<rparr> \<lparr>PrefixLen = 0, Data = [0]\<rparr> =
     Some (None, False) \<and>
   Lookup \<lparr>root = Node \<lparr>PrefixLen = 8, Data = [0]\<rparr> nilNode nilNode (Some (1::nat)) False,
            size_cnt = 1, maxPrefixLen = 8, keySize = 1\<rparr> \<lparr>PrefixLen = 8, Data = [0]\<rparr> =
     Some (Some 1, True) \<and>
   Update \<lparr>root = Node \<lparr>PrefixLen = 8, Data = [0]\<rparr> nilNode nilNode (Some (1::nat)) False,
            size_cnt = 1, maxPrefixLen = 8, keySize = 1\<rparr> \<lparr>PrefixLen = 0, Data = [0]\<rparr> (Some 2) =
     Some (\<lparr>root = Node \<lparr>PrefixLen = 0, Data = [0]\<rparr>
             (Node \<lparr>PrefixLen = 0, Data = [0]\<rparr> nilNode nilNode (Some 2) False)
             (Node \<lparr>PrefixLen = 8, Data = [0]\<rparr> nilNode nilNode (Some 1) False) None True,
            size_cnt = 2, maxPrefixLen = 8, keySize = 1\<rparr>, False) \<and>
   Delete \<lparr>root = Node \<lparr>PrefixLen = 0, Data = [0]\<rparr>
             (Node \<lparr>PrefixLen = 0, Data = [0]\<rparr> nilNode nilNode (Some (2::nat)) False)
             (Node \<lparr>PrefixLen = 8, Data = [0]\<rparr> nilNode nilNode (Some 1) False) None True,
            size_cnt = 2, maxPrefixLen = 8, keySize = 1\<rparr> \<lparr>PrefixLen = 0, Data = [0]\<rparr> =
     Some (\<lparr>root = Node \<lparr>PrefixLen = 0, Data = [0]\<rparr>
             (Node \<lparr>PrefixLen = 0, Data = [0]\<rparr> nilNode nilNode (Some 2) False)
             (Node \<lparr>PrefixLen = 8, Data = [0]\<rparr> nilNode nilNode (Some 1) False) None True,
            size_cnt = 2, maxPrefixLen = 8, keySize = 1\<rparr>, False) \<and>
   Lookup \<lparr>root = Node \<lparr>PrefixLen = 0, Data = [0]\<rparr>
             (Node \<lparr>PrefixLen = 0, Data = [0]\<rparr> nilNode nilNode (Some (2::nat)) False)
             (Node \<lparr>PrefixLen = 8, Data = [0]\<rparr> nilNode nilNode (Some 1) False) None True,
            size_cnt = 2, maxPrefixLen = 8, keySize = 1\<rparr> \<lparr>PrefixLen = 8, Data = [0]\<rparr> =
     Some (Some 2, True)"
  by code_simp

theorem ancestor_insert_not_undone_witness:
  "\<exists>t1 t2 t3.
     Update \<lparr>root = nilNode, size_cnt = 0, maxPrefixLen = 8, keySize = 1\<rparr>
       \<lparr>PrefixLen = 8, Data = [0]\<rparr> (Some (1::nat)) = Some (t1, False) \<and>
     Lookup t1 \<lparr>PrefixLen = 0, Data = [0]\<rparr> = Some (None, False) \<and>
     Update t1 \<lparr>PrefixLen = 0, Data = [0]\<rparr> (Some 2) = Some (t2, False) \<and>
     Delete t2 \<lparr>PrefixLen = 0, Data = [0]\<rparr> = Some (t3, False) \<and>
     Size t3 \<noteq> Size t1 \<and>
     Lookup t3 \<lparr>PrefixLen = 8, Data = [0]\<rparr> \<noteq> Lookup t1 \<lparr>PrefixLen = 8, Data = [0]\<rparr>"
  using ancestor_insert_not_undone by (auto simp add: Size_def)

text \<open>
  Claim C1, as stated, does not hold of the code: a stored key that is longer than the
  query key is never matched, although its first bits equal the query's.
\<close>

theorem Lookup_longer_key_counterexample:
  "run_calls \<lparr>root = nilNode, size_cnt = 0, maxPrefixLen = 8, keySize = 1\<rparr>
     (update_calls [(\<lparr>PrefixLen = 8, Data = [0]\<rparr>, Some (1::nat))]) =
     Some \<lparr>root = Node \<lparr>PrefixLen = 8, Data = [0]\<rparr> nilNode nilNode (Some 1) False,
           size_cnt = 1, maxPrefixLen = 8, keySize = 1\<rparr> \<and>
   isValidKey \<lparr>root = Node \<lparr>PrefixLen = 8, Data = [0]\<rparr> nilNode nilNode (Some (1::nat)) False,
           size_cnt = 1, maxPrefixLen = 8, keySize = 1\<rparr> \<lparr>PrefixLen = 0, Data = [0]\<rparr> \<and>
   first_bits_equal \<lparr>PrefixLen = 8, Data = [0]\<rparr> \<lparr>PrefixLen = 0, Data = [0]\<rparr> \<and>
   lookup_result (longest_match first_bits_equal
       [(\<lparr>PrefixLen = 8, Data = [0]\<rparr>, Some (1::nat))] \<lparr>PrefixLen = 0, Data = [0]\<rparr>) =
     (Some 1, True) \<and>
   Lookup \<lparr>root = Node \<lparr>PrefixLen = 8, Data = [0]\<rparr> nilNode nilNode (Some (1::nat)) False,
           size_cnt = 1, maxPrefixLen = 8, keySize = 1\<rparr> \<lparr>PrefixLen = 0, Data = [0]\<rparr> =
     Some (None, False)"
  by code_simp

subsection \<open>In-order sequence and visitor\<close>

lemma visit_all_append:
  "visit_all fn (xs @ ys) s =
     (case visit_all fn xs s of (True, s') \<Rightarrow> (True, s') | (False, s') \<Rightarrow> visit_all fn ys s')"
  by (induction fn xs s rule: visit_all.induct) (auto split: prod.splits bool.splits)

lemma traverse_visit_all: "traverse fn n s = visit_all fn (entries_inorder n) s"
proof (induction n arbitrary: s)
  case nilNode
  then show ?case by simp
next
  case (Node k c0 c1 v im)
  then show ?case
    by (auto simp add: visit_all_append split: prod.splits bool.splits)
qed

lemma inorder_before_append: "inorder_before (p @ x) (p @ y) = inorder_before x y"
  by (induction p) simp_all

lemma inorder_before_ext0: "inorder_before (p @ False # x) p"
  using inorder_before_append [of p "False # x" "[]"] by simp

lemma inorder_before_ext1: "inorder_before p (p @ True # y)"
  using inorder_before_append [of p "[]" "True # y"] by simp

lemma inorder_before_ext01: "inorder_before (p @ False # x) (p @ True # y)"
  using inorder_before_append [of p "False # x" "True # y"] by simp

lemma inorder_before_bits_less:
  "\<not> prefix p q \<Longrightarrow> \<not> prefix q p \<Longrightarrow> inorder_before p q = bits_less p q"
  by (induction p q rule: inorder_before.induct) auto

text \<open>Every entry of a tree extends the bit string of the slot the tree hangs in.\<close>

lemma prefix_inv_entries:
  "prefix_inv t p n \<Longrightarrow> (k, v) \<in> set (entries_inorder n) \<Longrightarrow>
   isValidKey t k \<and> prefix p (key_prefix k)"
proof (induction n arbitrary: p)
  case nilNode
  then show ?case by simp
next
  case (Node k' c0 c1 v' im)
  from Node.prems(2) consider
    (left) "(k, v) \<in> set (entries_inorder c0)"
    | (self) "(k, v) = (k', v')"
    | (right) "(k, v) \<in> set (entries_inorder c1)"
    by (auto split: if_splits)
  then show ?case
  proof cases
    case left
    then have "isValidKey t k \<and> prefix (key_prefix k' @ [False]) (key_prefix k)"
      using Node.IH(1) [of "key_prefix k' @ [False]"] Node.prems(1) by simp
    then show ?thesis
      using Node.prems(1) by (auto dest: append_prefixD prefix_order.trans)
  next
    case self
    then show ?thesis using Node.prems(1) by simp
  next
    case right
    then have "isValidKey t k \<and> prefix (key_prefix k' @ [True]) (key_prefix k)"
      using Node.IH(2) [of "key_prefix k' @ [True]"] Node.prems(1) by simp
    then show ?thesis
      using Node.prems(1) by (auto dest: append_prefixD prefix_order.trans)
  qed
qed

lemma prefix_inv_inorder:
  "prefix_inv t p n \<Longrightarrow>
   sorted_wrt inorder_before (map (\<lambda>(k, v). key_prefix k) (entries_inorder n))"
proof (induction n arbitrary: p)
  case nilNode
  then show ?case by simp
next
  case (Node k c0 c1 v im)
  let ?kp = "key_prefix k"
  have l: "\<exists>x. key_prefix k' = ?kp @ False # x" if "(k', v') \<in> set (entries_inorder c0)" for k' v'
    using prefix_inv_entries [of t "?kp @ [False]" c0 k' v'] that Node.prems
    by (auto simp add: prefix_def)
  have r: "\<exists>y. key_prefix k' = ?kp @ True # y" if "(k', v') \<in> set (entries_inorder c1)" for k' v'
    using prefix_inv_entries [of t "?kp @ [True]" c1 k' v'] that Node.prems
    by (auto simp add: prefix_def)
  have s0: "sorted_wrt inorder_before (map (\<lambda>(k, v). key_prefix k) (entries_inorder c0))"
    and s1: "sorted_wrt inorder_before (map (\<lambda>(k, v). key_prefix k) (entries_inorder c1))"
    using Node.IH Node.prems by auto
  have lr: "inorder_before (key_prefix a) (key_prefix b)"
    if "(a, va) \<in> set (entries_inorder c0)" "(b, vb) \<in> set (entries_inorder c1)" for a va b vb
    using l [OF that(1)] r [OF that(2)] by (auto simp add: inorder_before_ext01)
  have lm: "inorder_before (key_prefix a) ?kp"
    if "(a, va) \<in> set (entries_inorder c0)" for a va
    using l [OF that] by (auto simp add: inorder_before_ext0)
  have mr: "inorder_before ?kp (key_prefix b)"
    if "(b, vb) \<in> set (entries_inorder c1)" for b vb
    using r [OF that] by (auto simp add: inorder_before_ext1)
  show ?case
    using s0 s1 lr lm mr by (auto simp add: sorted_wrt_append)
qed

subsection \<open>Prefixes and match lengths\<close>

lemma takeWhile_eq_take:
  "length xs = length ys \<Longrightarrow> n \<le> length xs \<Longrightarrow>
   n \<le> length (takeWhile (\<lambda>(x, y). x = y) (zip xs ys)) \<longleftrightarrow> take n xs = take n ys"
proof (induction xs ys arbitrary: n rule: list_induct2)
  case Nil
  then show ?case by simp
next
  case (Cons x xs y ys)
  then show ?case by (cases n) auto
qed

lemma takeWhile_eq_differ:
  assumes "length xs = length ys"
    and "length (takeWhile (\<lambda>(x, y). x = y) (zip xs ys)) < length xs"
  shows "xs ! length (takeWhile (\<lambda>(x, y). x = y) (zip xs ys)) \<noteq>
         ys ! length (takeWhile (\<lambda>(x, y). x = y) (zip xs ys))"
proof -
  let ?z = "zip xs ys" and ?P = "\<lambda>(x, y). x = y"
  let ?n = "length (takeWhile ?P ?z)"
  have "?n < length ?z" using assms by simp
  then have "\<not> ?P (?z ! ?n)" by (rule nth_length_takeWhile)
  then show ?thesis using assms by simp
qed

lemma first_diff_bit_ge:
  assumes "length a = length b" "n \<le> 8 * length a"
  shows "n \<le> first_diff_bit a b \<longleftrightarrow> take n (key_bits a) = take n (key_bits b)"
  unfolding first_diff_bit_def using assms by (intro takeWhile_eq_take) simp_all

lemma first_diff_bit_differ:
  assumes "length a = length b" "first_diff_bit a b < 8 * length a"
  shows "key_bits a ! first_diff_bit a b \<noteq> key_bits b ! first_diff_bit a b"
  unfolding first_diff_bit_def
  using assms by (intro takeWhile_eq_differ) (simp_all add: first_diff_bit_def)

text \<open>Keys of one trie.\<close>

lemma valid_key_lengths:
  assumes "config_ok t" "isValidKey t k"
  shows "length (key_bits (Data k)) = nat (maxPrefixLen t)"
    "length (key_prefix k) = nat (PrefixLen k)" "0 \<le> PrefixLen k" "PrefixLen k \<le> maxPrefixLen t"
  using assms by (auto simp add: config_ok_def isValidKey_def key_prefix_def)

lemma valid_keys_same_length:
  "isValidKey t k \<Longrightarrow> isValidKey t q \<Longrightarrow> length (Data k) = length (Data q)"
  by (simp add: isValidKey_def)

lemma bitwise_match_take:
  assumes "config_ok t" "isValidKey t k" "isValidKey t q"
  shows "take (nat (bitwise_match k q)) (key_bits (Data k)) =
         take (nat (bitwise_match k q)) (key_bits (Data q))"
proof -
  let ?m = "bitwise_match k q"
  have len: "length (Data k) = length (Data q)"
    using assms(2,3) by (rule valid_keys_same_length)
  have "nat ?m \<le> first_diff_bit (Data k) (Data q)"
    by (simp add: bitwise_match_def)
  moreover have "nat ?m \<le> 8 * length (Data k)"
    using first_diff_bit_le [of "Data k" "Data q"] calculation by linarith
  ultimately show ?thesis using first_diff_bit_ge [OF len] by blast
qed

lemma covers_prefix:
  assumes "config_ok t" "isValidKey t k" "isValidKey t q"
  shows "covers k q \<longleftrightarrow>
     PrefixLen k \<le> PrefixLen q \<and> prefix (key_prefix k) (key_bits (Data q))"
proof -
  have lk: "length (key_prefix k) = nat (PrefixLen k)"
    using valid_key_lengths(2) [OF assms(1,2)] .
  have "first_bits_equal k q \<longleftrightarrow> prefix (key_prefix k) (key_bits (Data q))"
  proof
    assume "first_bits_equal k q"
    then have "key_prefix k = take (nat (PrefixLen k)) (key_bits (Data q))"
      by (simp add: first_bits_equal_def key_prefix_def)
    then show "prefix (key_prefix k) (key_bits (Data q))"
      by (simp add: take_is_prefix)
  next
    assume "prefix (key_prefix k) (key_bits (Data q))"
    then have "take (length (key_prefix k)) (key_bits (Data q)) = key_prefix k"
      by (auto simp add: prefix_def)
    then show "first_bits_equal k q"
      by (simp add: first_bits_equal_def lk) (simp add: key_prefix_def)
  qed
  then show ?thesis by (simp add: covers_def)
qed

lemma bitwise_match_covers:
  assumes "config_ok t" "isValidKey t k" "isValidKey t q"
  shows "bitwise_match k q = PrefixLen k \<longleftrightarrow> covers k q"
proof -
  have len: "length (Data k) = length (Data q)"
    using assms(2,3) by (rule valid_keys_same_length)
  have pk: "0 \<le> PrefixLen k" "nat (PrefixLen k) \<le> 8 * length (Data k)"
    using assms by (auto simp add: config_ok_def isValidKey_def)
  have "bitwise_match k q = PrefixLen k \<longleftrightarrow>
      PrefixLen k \<le> PrefixLen q \<and> nat (PrefixLen k) \<le> first_diff_bit (Data k) (Data q)"
    using pk(1) by (auto simp add: bitwise_match_def min_def)
  also have "\<dots> \<longleftrightarrow> PrefixLen k \<le> PrefixLen q \<and> first_bits_equal k q"
    using first_diff_bit_ge [OF len pk(2)] by (simp add: first_bits_equal_def)
  finally show ?thesis by (simp add: covers_def)
qed

lemma bitwise_match_differ:
  assumes "config_ok t" "isValidKey t k" "isValidKey t q"
    and "bitwise_match k q < PrefixLen k" "bitwise_match k q < PrefixLen q"
  shows "bit_at k (bitwise_match k q) \<noteq> bit_at q (bitwise_match k q)"
proof -
  let ?fd = "first_diff_bit (Data k) (Data q)"
  have len: "length (Data k) = length (Data q)"
    using assms(2,3) by (rule valid_keys_same_length)
  have m: "bitwise_match k q = int ?fd"
    using assms(4,5) by (simp add: bitwise_match_def min_def split: if_splits)
  then have "?fd < 8 * length (Data k)"
    using assms(1,2,4) by (simp add: config_ok_def isValidKey_def)
  from first_diff_bit_differ [OF len this] show ?thesis
    by (simp add: bit_at_def m)
qed

lemma bitwise_match_common:
  assumes "config_ok t" "isValidKey t k" "isValidKey t q"
    and "prefix c (key_prefix k)" "prefix c (key_bits (Data q))" "int (length c) \<le> PrefixLen q"
  shows "int (length c) \<le> bitwise_match k q"
proof -
  have len: "length (Data k) = length (Data q)"
    using assms(2,3) by (rule valid_keys_same_length)
  have lk: "length (key_prefix k) = nat (PrefixLen k)" "0 \<le> PrefixLen k"
    "length (key_bits (Data k)) = nat (maxPrefixLen t)" "PrefixLen k \<le> maxPrefixLen t"
    using valid_key_lengths [OF assms(1,2)] by simp_all
  have c1: "length c \<le> nat (PrefixLen k)"
    using prefix_length_le [OF assms(4)] lk by simp
  have "prefix c (key_bits (Data k))"
    using assms(4) by (auto simp add: key_prefix_def intro: prefix_order.trans take_is_prefix)
  then have "take (length c) (key_bits (Data k)) = c" "take (length c) (key_bits (Data q)) = c"
    using assms(5) by (auto simp add: prefix_def)
  moreover have "length c \<le> 8 * length (Data k)"
    using c1 lk by simp
  ultimately have "length c \<le> first_diff_bit (Data k) (Data q)"
    using first_diff_bit_ge [OF len, of "length c"] by simp
  then show ?thesis
    using c1 assms(6) lk(2) by (simp add: bitwise_match_def)
qed

subsection \<open>Lookup on a tree with the prefix invariant\<close>

lemma prefix_snoc_nth: "prefix (xs @ [x]) ys \<Longrightarrow> ys ! length xs = x"
  by (auto simp add: prefix_def nth_append)

text \<open>Below a node: the entries extend the node's prefix by one bit at least.\<close>

lemma child_entries:
  assumes "config_ok t" "isValidKey t k" "prefix_inv t (key_prefix k @ [b]) c"
    and "(k', v') \<in> set (entries_inorder c)"
  shows "isValidKey t k'" "prefix (key_prefix k @ [b]) (key_prefix k')"
    "PrefixLen k < PrefixLen k'" "prefix (key_prefix k) (key_prefix k')"
proof -
  from prefix_inv_entries [OF assms(3,4)]
  show v: "isValidKey t k'" and p: "prefix (key_prefix k @ [b]) (key_prefix k')"
    by simp_all
  from prefix_length_le [OF p] show "PrefixLen k < PrefixLen k'"
    using valid_key_lengths [OF assms(1,2)] valid_key_lengths [OF assms(1) v] by simp
  from p show "prefix (key_prefix k) (key_prefix k')"
    by (rule append_prefixD)
qed

lemma child_entries_cover:
  assumes "config_ok t" "isValidKey t k" "isValidKey t q"
    and "prefix_inv t (key_prefix k @ [b]) c"
    and "(k', v') \<in> set (entries_inorder c)" "covers k' q"
  shows "covers k q" "PrefixLen k < PrefixLen k'" "bit_at q (PrefixLen k) = b"
proof -
  note ce = child_entries [OF assms(1,2,4,5)]
  from assms(6) have c: "PrefixLen k' \<le> PrefixLen q" "prefix (key_prefix k') (key_bits (Data q))"
    using covers_prefix [OF assms(1) ce(1) assms(3)] by simp_all
  show "PrefixLen k < PrefixLen k'" by (rule ce(3))
  have "prefix (key_prefix k) (key_bits (Data q))"
    using ce(4) c(2) by (rule prefix_order.trans)
  then show "covers k q"
    using covers_prefix [OF assms(1,2,3)] c(1) ce(3) by simp
  have "prefix (key_prefix k @ [b]) (key_bits (Data q))"
    using ce(2) c(2) by (rule prefix_order.trans)
  from prefix_snoc_nth [OF this] show "bit_at q (PrefixLen k) = b"
    using valid_key_lengths(2) [OF assms(1,2)] by (simp add: bit_at_def)
qed

lemma full_length_leaf:
  assumes "config_ok t" "isValidKey t k" "PrefixLen k = maxPrefixLen t"
    and "prefix_inv t (key_prefix k @ [b]) c"
  shows "c = nilNode"
proof (cases c)
  case nilNode
  then show ?thesis .
next
  case (Node k' c0 c1 v im)
  then have "isValidKey t k'" "prefix (key_prefix k @ [b]) (key_prefix k')"
    using assms(4) by simp_all
  then have "PrefixLen k < PrefixLen k'" "PrefixLen k' \<le> maxPrefixLen t"
    using prefix_length_le [of "key_prefix k @ [b]" "key_prefix k'"]
      valid_key_lengths [OF assms(1,2)] valid_key_lengths [OF assms(1), of k']
    by simp_all
  then show ?thesis using assms(3) by simp
qed

lemma lookup_loop_best:
  assumes cfg: "config_ok t" and q: "isValidKey t q"
  shows "prefix_inv t p n \<Longrightarrow> im_branching n \<Longrightarrow>
     \<exists>r. lookup_loop t q n found = Some r \<and>
       (if \<exists>(k, v) \<in> set (entries_inorder n). covers k q
        then \<exists>k c0 c1 v. r = Node k c0 c1 v False \<and> (k, v) \<in> set (entries_inorder n) \<and>
               covers k q \<and>
               (\<forall>(k', v') \<in> set (entries_inorder n). covers k' q \<longrightarrow> PrefixLen k' \<le> PrefixLen k)
        else r = found)"
proof (induction n arbitrary: p found)
  case nilNode
  then show ?case by simp
next
  case (Node k c0 c1 v im)
  let ?node = "Node k c0 c1 v im"
  let ?m = "bitwise_match k q"
  from Node.prems have k: "isValidKey t k"
    and i0: "prefix_inv t (key_prefix k @ [False]) c0"
    and i1: "prefix_inv t (key_prefix k @ [True]) c1"
    and b0: "im_branching c0" and b1: "im_branching c1"
    and br: "im \<Longrightarrow> c0 \<noteq> nilNode \<and> c1 \<noteq> nilNode"
    by simp_all
  note step = lookup_loop_Node [OF cfg q k, of c0 c1 v im found]
  have mle: "?m \<le> PrefixLen k" by (rule bitwise_match_le)
  have kmax: "PrefixLen k \<le> maxPrefixLen t" using valid_key_lengths(4) [OF cfg k] .
  have cov: "?m = PrefixLen k \<longleftrightarrow> covers k q" by (rule bitwise_match_covers [OF cfg k q])
  have ents: "set (entries_inorder ?node) =
      set (entries_inorder c0) \<union> (if im then {} else {(k, v)}) \<union> set (entries_inorder c1)"
    by auto
  have below0: "covers k q \<and> PrefixLen k < PrefixLen k' \<and> \<not> bit_at q (PrefixLen k)"
    if "(k', v') \<in> set (entries_inorder c0)" "covers k' q" for k' v'
    using child_entries_cover [OF cfg k q i0 that] by simp
  have below1: "covers k q \<and> PrefixLen k < PrefixLen k' \<and> bit_at q (PrefixLen k)"
    if "(k', v') \<in> set (entries_inorder c1)" "covers k' q" for k' v'
    using child_entries_cover [OF cfg k q i1 that] by simp
  show ?case
  proof (cases "?m = maxPrefixLen t")
    case True
    then have full: "PrefixLen k = maxPrefixLen t" using mle kmax by simp
    then have "c0 = nilNode" "c1 = nilNode"
      using full_length_leaf [OF cfg k full i0] full_length_leaf [OF cfg k full i1] by simp_all
    moreover from this have "\<not> im" using br by auto
    moreover have "covers k q" using cov True full by simp
    ultimately show ?thesis using step True by (simp add: Let_def)
  next
    case nmax: False
    show ?thesis
    proof (cases "?m < PrefixLen k")
      case True
      then have "\<not> covers k q" using cov by simp
      then have "\<not> (\<exists>(k', v') \<in> set (entries_inorder ?node). covers k' q)"
        using below0 below1 unfolding ents by (auto split: if_splits)
      then show ?thesis using step nmax True by (simp add: Let_def del: entries_inorder.simps)
    next
      case False
      then have c: "covers k q" using cov mle by simp
      let ?b = "bit_at q (PrefixLen k)"
      let ?c = "if ?b then c1 else c0"
      let ?f = "if \<not> im then ?node else found"
      have rec: "lookup_loop t q ?node found = lookup_loop t q ?c ?f"
        using step nmax False by (simp add: Let_def)
      have ic: "prefix_inv t (key_prefix k @ [?b]) ?c" "im_branching ?c"
        using i0 i1 b0 b1 by auto
      obtain r where r: "lookup_loop t q ?c ?f = Some r"
        "if \<exists>(k, v) \<in> set (entries_inorder ?c). covers k q
         then \<exists>k c0 c1 v. r = Node k c0 c1 v False \<and> (k, v) \<in> set (entries_inorder ?c) \<and>
               covers k q \<and>
               (\<forall>(k', v') \<in> set (entries_inorder ?c). covers k' q \<longrightarrow> PrefixLen k' \<le> PrefixLen k)
         else r = ?f"
        using Node.IH(1) [OF i0 b0, of ?f] Node.IH(2) [OF i1 b1, of ?f] by (cases ?b) auto
      have other: "\<not> covers k' q"
        if "(k', v') \<in> set (entries_inorder (if ?b then c0 else c1))" for k' v'
        using below0 [of k' v'] below1 [of k' v'] that by (cases ?b) auto
      have sub: "set (entries_inorder ?c) \<subseteq> set (entries_inorder ?node)"
        by auto
      have ents': "set (entries_inorder ?node) =
          set (entries_inorder ?c) \<union> (if im then {} else {(k, v)}) \<union>
          set (entries_inorder (if ?b then c0 else c1))"
        by auto
      have deeper: "PrefixLen k < PrefixLen k'"
        if "(k', v') \<in> set (entries_inorder ?c)" "covers k' q" for k' v'
        using below0 [of k' v'] below1 [of k' v'] that by (cases ?b) auto
      show ?thesis
      proof (cases "\<exists>(k, v) \<in> set (entries_inorder ?c). covers k q")
        case True
        with r(2) obtain k1 a0 a1 v1 where r1: "r = Node k1 a0 a1 v1 False"
          "(k1, v1) \<in> set (entries_inorder ?c)" "covers k1 q"
          "\<forall>(k', v') \<in> set (entries_inorder ?c). covers k' q \<longrightarrow> PrefixLen k' \<le> PrefixLen k1"
          by auto
        have "\<forall>(k', v') \<in> set (entries_inorder ?node). covers k' q \<longrightarrow> PrefixLen k' \<le> PrefixLen k1"
          unfolding ents' using r1(4) other deeper [OF r1(2,3)] by (auto split: if_splits)
        moreover have "(k1, v1) \<in> set (entries_inorder ?node)" using r1(2) sub by blast
        ultimately show ?thesis
          unfolding rec using r(1) r1(1,3) by (intro exI [of _ r]) auto
      next
        case none: False
        then have rf: "r = ?f" using r(2) by simp
        show ?thesis
        proof (cases im)
          case True
          then have "\<not> (\<exists>(k', v') \<in> set (entries_inorder ?node). covers k' q)"
            unfolding ents' using none other by auto
          then show ?thesis unfolding rec using r(1) rf True by simp
        next
          case False
          then have "(k, v) \<in> set (entries_inorder ?node)" by simp
          moreover have "\<forall>(k', v') \<in> set (entries_inorder ?node). covers k' q \<longrightarrow> PrefixLen k' \<le> PrefixLen k"
            unfolding ents' using none other by (auto split: if_splits)
          ultimately show ?thesis
            unfolding rec using r(1) rf False c by (intro exI [of _ r]) auto
        qed
      qed
    qed
  qed
qed

subsection \<open>Slots and their bit strings\<close>

lemma prefix_snoc:
  "prefix xs ys \<Longrightarrow> length xs < length ys \<Longrightarrow> ys ! length xs = x \<Longrightarrow> prefix (xs @ [x]) ys"
  by (auto simp add: prefix_def) (metis append_Cons hd_Cons_tl nth_append_length self_append_conv)

lemma prefix_slot_ctx:
  "prefix_inv t p n \<Longrightarrow> slot_in n s \<Longrightarrow> prefix p (slot_ctx n s p)"
proof (induction n s p rule: slot_ctx.induct)
  case (3 k c0 c1 v im b bs p)
  let ?c = "if b = 0 then c0 else c1"
  have "prefix_inv t (key_prefix k @ [b \<noteq> 0]) ?c" "slot_in ?c bs"
    using "3.prems" by auto
  then have "prefix (key_prefix k @ [b \<noteq> 0]) (slot_ctx ?c bs (key_prefix k @ [b \<noteq> 0]))"
    by (rule "3.IH")
  moreover have "prefix p (key_prefix k @ [b \<noteq> 0])"
    using "3.prems"(1) by (simp add: prefix_prefix)
  ultimately have "prefix p (slot_ctx ?c bs (key_prefix k @ [b \<noteq> 0]))"
    by (rule prefix_order.trans [rotated])
  then show ?case by simp
qed simp_all

lemma prefix_inv_loadPointer:
  "prefix_inv t p n \<Longrightarrow> slot_in n s \<Longrightarrow> prefix_inv t (slot_ctx n s p) (loadPointer n s)"
proof (induction n s p rule: slot_ctx.induct)
  case (3 k c0 c1 v im b bs p)
  let ?c = "if b = 0 then c0 else c1"
  have "prefix_inv t (key_prefix k @ [b \<noteq> 0]) ?c" "slot_in ?c bs"
    using "3.prems" by auto
  then have "prefix_inv t (slot_ctx ?c bs (key_prefix k @ [b \<noteq> 0])) (loadPointer ?c bs)"
    by (rule "3.IH")
  then show ?case by simp
qed simp_all

lemma prefix_inv_storePointer:
  "prefix_inv t p n \<Longrightarrow> slot_in n s \<Longrightarrow> prefix_inv t (slot_ctx n s p) new \<Longrightarrow>
   prefix_inv t p (storePointer n s new)"
proof (induction n s p rule: slot_ctx.induct)
  case (3 k c0 c1 v im b bs p)
  let ?c = "if b = 0 then c0 else c1"
  have "prefix_inv t (key_prefix k @ [b \<noteq> 0]) ?c" "slot_in ?c bs"
    "prefix_inv t (slot_ctx ?c bs (key_prefix k @ [b \<noteq> 0])) new"
    using "3.prems" by auto
  then have "prefix_inv t (key_prefix k @ [b \<noteq> 0]) (storePointer ?c bs new)"
    by (rule "3.IH")
  then show ?case using "3.prems"(1) by (cases "b = 0") simp_all
qed simp_all

text \<open>
  The entries below a slot are the entries of the tree that extend the slot's bit
  string; storing into the slot replaces exactly those.
\<close>

lemma entries_loadPointer:
  assumes "config_ok t"
  shows "prefix_inv t p n \<Longrightarrow> slot_in n s \<Longrightarrow>
     set (entries_inorder (loadPointer n s)) =
       {e \<in> set (entries_inorder n). prefix (slot_ctx n s p) (key_prefix (fst e))}"
proof (induction n s p rule: slot_ctx.induct)
  case (1 n p)
  then show ?case using prefix_inv_entries [of t p n] by auto
next
  case (2 b bs p)
  then show ?case by simp
next
  case (3 k c0 c1 v im b bs p)
  let ?c = "if b = 0 then c0 else c1" and ?o = "if b = 0 then c1 else c0"
  let ?p = "key_prefix k @ [b \<noteq> 0]"
  let ?ctx = "slot_ctx ?c bs ?p"
  from "3.prems" have k: "isValidKey t k"
    and ic: "prefix_inv t ?p ?c" and io: "prefix_inv t (key_prefix k @ [b = 0]) ?o"
    and sl: "slot_in ?c bs"
    by auto
  have IH: "set (entries_inorder (loadPointer ?c bs)) =
       {e \<in> set (entries_inorder ?c). prefix ?ctx (key_prefix (fst e))}"
    using ic sl by (rule "3.IH")
  have pc: "prefix ?p ?ctx" using ic sl by (rule prefix_slot_ctx)
  have self: "\<not> prefix ?ctx (key_prefix k)"
    using prefix_length_le [OF pc] prefix_length_le [of ?ctx "key_prefix k"] by auto
  have other: "\<not> prefix ?ctx (key_prefix k')" if "(k', v') \<in> set (entries_inorder ?o)" for k' v'
  proof
    assume "prefix ?ctx (key_prefix k')"
    then have "prefix ?p (key_prefix k')" using pc by (rule prefix_order.trans [rotated])
    moreover have "prefix (key_prefix k @ [b = 0]) (key_prefix k')"
      using prefix_inv_entries [OF io that] by simp
    ultimately show False
      using prefix_snoc_nth [of "key_prefix k" "b \<noteq> 0" "key_prefix k'"]
        prefix_snoc_nth [of "key_prefix k" "b = 0" "key_prefix k'"] by auto
  qed
  have "set (entries_inorder (Node k c0 c1 v im)) =
      set (entries_inorder ?c) \<union> (if im then {} else {(k, v)}) \<union> set (entries_inorder ?o)"
    by auto
  then have "{e \<in> set (entries_inorder (Node k c0 c1 v im)). prefix ?ctx (key_prefix (fst e))} =
      {e \<in> set (entries_inorder ?c). prefix ?ctx (key_prefix (fst e))}"
    using self other by (auto split: if_splits)
  then show ?case using IH by simp
qed

lemma entries_storePointer:
  assumes "config_ok t"
  shows "prefix_inv t p n \<Longrightarrow> slot_in n s \<Longrightarrow>
     set (entries_inorder (storePointer n s new)) =
       {e \<in> set (entries_inorder n). \<not> prefix (slot_ctx n s p) (key_prefix (fst e))} \<union>
       set (entries_inorder new)"
proof (induction n s p rule: slot_ctx.induct)
  case (1 n p)
  then show ?case using prefix_inv_entries [of t p n] by auto
next
  case (2 b bs p)
  then show ?case by simp
next
  case (3 k c0 c1 v im b bs p)
  let ?c = "if b = 0 then c0 else c1" and ?o = "if b = 0 then c1 else c0"
  let ?p = "key_prefix k @ [b \<noteq> 0]"
  let ?ctx = "slot_ctx ?c bs ?p"
  from "3.prems" have k: "isValidKey t k"
    and ic: "prefix_inv t ?p ?c" and io: "prefix_inv t (key_prefix k @ [b = 0]) ?o"
    and sl: "slot_in ?c bs"
    by auto
  have IH: "set (entries_inorder (storePointer ?c bs new)) =
       {e \<in> set (entries_inorder ?c). \<not> prefix ?ctx (key_prefix (fst e))} \<union>
       set (entries_inorder new)"
    using ic sl by (rule "3.IH")
  have pc: "prefix ?p ?ctx" using ic sl by (rule prefix_slot_ctx)
  have self: "\<not> prefix ?ctx (key_prefix k)"
    using prefix_length_le [OF pc] prefix_length_le [of ?ctx "key_prefix k"] by auto
  have other: "\<not> prefix ?ctx (key_prefix k')" if "(k', v') \<in> set (entries_inorder ?o)" for k' v'
  proof
    assume "prefix ?ctx (key_prefix k')"
    then have "prefix ?p (key_prefix k')" using pc by (rule prefix_order.trans [rotated])
    moreover have "prefix (key_prefix k @ [b = 0]) (key_prefix k')"
      using prefix_inv_entries [OF io that] by simp
    ultimately show False
      using prefix_snoc_nth [of "key_prefix k" "b \<noteq> 0" "key_prefix k'"]
        prefix_snoc_nth [of "key_prefix k" "b = 0" "key_prefix k'"] by auto
  qed
  have old: "set (entries_inorder (Node k c0 c1 v im)) =
      set (entries_inorder ?c) \<union> (if im then {} else {(k, v)}) \<union> set (entries_inorder ?o)"
    by auto
  have new: "set (entries_inorder (storePointer (Node k c0 c1 v im) (b # bs) new)) =
      set (entries_inorder (storePointer ?c bs new)) \<union> (if im then {} else {(k, v)}) \<union>
      set (entries_inorder ?o)"
    by auto
  show ?case
    unfolding new IH old slot_ctx.simps using self other by (auto split: if_splits)
qed

subsection \<open>Update keeps the prefix invariant\<close>

lemma descend_ctx:
  assumes cfg: "config_ok t" and key: "isValidKey t key" and k: "isValidKey t k"
    and m: "PrefixLen k = bitwise_match k key" "PrefixLen k \<noteq> PrefixLen key"
  shows "prefix (key_prefix k @ [bit_at key (PrefixLen k)]) (key_bits (Data key))"
    "int (length (key_prefix k @ [bit_at key (PrefixLen k)])) \<le> PrefixLen key"
proof -
  have c: "covers k key" using bitwise_match_covers [OF cfg k key] m(1) by simp
  then have pk: "PrefixLen k \<le> PrefixLen key" "prefix (key_prefix k) (key_bits (Data key))"
    using covers_prefix [OF cfg k key] by simp_all
  note lk = valid_key_lengths [OF cfg k] and lkey = valid_key_lengths [OF cfg key]
  have lt: "PrefixLen k < PrefixLen key" using pk(1) m(2) by simp
  then have "length (key_prefix k) < length (key_bits (Data key))"
    using lk lkey by simp
  moreover have "key_bits (Data key) ! length (key_prefix k) = bit_at key (PrefixLen k)"
    using lk by (simp add: bit_at_def)
  ultimately show "prefix (key_prefix k @ [bit_at key (PrefixLen k)]) (key_bits (Data key))"
    using pk(2) by (intro prefix_snoc)
  show "int (length (key_prefix k @ [bit_at key (PrefixLen k)])) \<le> PrefixLen key"
    using lt lk by simp
qed

lemma update_loop_ctx:
  assumes cfg: "config_ok t" and key: "isValidKey t key"
  shows "prefix_inv t p n \<Longrightarrow> prefix p (key_bits (Data key)) \<Longrightarrow>
     int (length p) \<le> PrefixLen key \<Longrightarrow>
     update_loop t key n acc m0 = Some (slot, node, m) \<Longrightarrow>
     \<exists>rel. slot = acc @ rel \<and> slot_in n rel \<and> loadPointer n rel = node \<and>
       prefix (slot_ctx n rel p) (key_bits (Data key)) \<and>
       int (length (slot_ctx n rel p)) \<le> PrefixLen key \<and>
       (node \<noteq> nilNode \<longrightarrow> m = bitwise_match (nkey node) key \<and>
          (PrefixLen (nkey node) \<noteq> m \<or> PrefixLen (nkey node) = PrefixLen key))"
proof (induction n arbitrary: p acc m0)
  case nilNode
  then show ?case by simp
next
  case (Node k c0 c1 v im)
  let ?m = "bitwise_match k key"
  from Node.prems(1) have k: "isValidKey t k" by simp
  note step = update_loop_Node [OF cfg key k, of c0 c1 v im acc m0]
  show ?case
  proof (cases "PrefixLen k \<noteq> ?m \<or> PrefixLen k = PrefixLen key")
    case True
    then have "slot = acc" "node = Node k c0 c1 v im" "m = ?m"
      using step Node.prems(4) by (simp_all add: Let_def)
    then show ?thesis using Node.prems(2,3) True by (intro exI [of _ "[]"]) simp
  next
    case False
    let ?b = "bit_at key (PrefixLen k)"
    let ?c = "if ?b then c1 else c0"
    let ?byte = "(if ?b then 1 else 0) :: byte"
    let ?p = "key_prefix k @ [?b]"
    have rec: "update_loop t key ?c (acc @ [?byte]) ?m = Some (slot, node, m)"
      using step Node.prems(4) False by (simp add: Let_def)
    have ctx: "prefix ?p (key_bits (Data key))" "int (length ?p) \<le> PrefixLen key"
      using descend_ctx [OF cfg key k] False by simp_all
    have inv: "prefix_inv t ?p ?c" using Node.prems(1) by simp
    have "\<exists>rel. slot = (acc @ [?byte]) @ rel \<and> slot_in ?c rel \<and> loadPointer ?c rel = node \<and>
       prefix (slot_ctx ?c rel ?p) (key_bits (Data key)) \<and>
       int (length (slot_ctx ?c rel ?p)) \<le> PrefixLen key \<and>
       (node \<noteq> nilNode \<longrightarrow> m = bitwise_match (nkey node) key \<and>
          (PrefixLen (nkey node) \<noteq> m \<or> PrefixLen (nkey node) = PrefixLen key))"
    proof (cases ?b)
      case True
      then show ?thesis
        using Node.IH(2) [of ?p "acc @ [?byte]" ?m] inv ctx rec by simp
    next
      case False
      then show ?thesis
        using Node.IH(1) [of ?p "acc @ [?byte]" ?m] inv ctx rec by simp
    qed
    then obtain rel where rel: "slot = (acc @ [?byte]) @ rel" "slot_in ?c rel"
      "loadPointer ?c rel = node" "prefix (slot_ctx ?c rel ?p) (key_bits (Data key))"
      "int (length (slot_ctx ?c rel ?p)) \<le> PrefixLen key"
      "node \<noteq> nilNode \<longrightarrow> m = bitwise_match (nkey node) key \<and>
          (PrefixLen (nkey node) \<noteq> m \<or> PrefixLen (nkey node) = PrefixLen key)"
      by blast
    have eq: "(if ?byte = 0 then c0 else c1) = ?c" "(?byte \<noteq> 0) = ?b" by simp_all
    show ?thesis
      using rel by (intro exI [of _ "?byte # rel"]) (simp add: eq del: One_nat_def)
  qed
qed

lemma take_snoc_prefix: "m < n \<Longrightarrow> n \<le> length xs \<Longrightarrow> prefix (take m xs @ [xs ! m]) (take n xs)"
proof -
  assume a: "m < n" "n \<le> length xs"
  then have "take m xs @ [xs ! m] = take (Suc m) xs"
    by (simp add: take_Suc_conv_app_nth)
  also have "\<dots> = take (Suc m) (take n xs)"
    using a by (simp add: min_def)
  also have "prefix \<dots> (take n xs)"
    by (rule take_is_prefix)
  finally show ?thesis .
qed

lemma prefix_take: "prefix c ys \<Longrightarrow> length c \<le> n \<Longrightarrow> prefix c (take n ys)"
  by (auto simp add: prefix_def)

lemma prefix_inv_config:
  "keySize t' = keySize t \<Longrightarrow> maxPrefixLen t' = maxPrefixLen t \<Longrightarrow>
   prefix_inv t' p n = prefix_inv t p n"
  by (induction n arbitrary: p) (simp_all add: isValidKey_config [of t' t])

lemma node_entries:
  assumes "config_ok t" "prefix_inv t p (Node k c0 c1 v im)"
    and "(k', v') \<in> set (entries_inorder (Node k c0 c1 v im))"
  shows "prefix (key_prefix k) (key_prefix k')" "PrefixLen k \<le> PrefixLen k'"
    "k' \<noteq> k \<or> im \<Longrightarrow> PrefixLen k < PrefixLen k'"
proof -
  from assms(2) have k: "isValidKey t k"
    and i0: "prefix_inv t (key_prefix k @ [False]) c0"
    and i1: "prefix_inv t (key_prefix k @ [True]) c1"
    by simp_all
  from assms(3) consider "(k', v') \<in> set (entries_inorder c0)" | "k' = k \<and> \<not> im"
    | "(k', v') \<in> set (entries_inorder c1)"
    by (auto split: if_splits)
  then have "prefix (key_prefix k) (key_prefix k') \<and> PrefixLen k \<le> PrefixLen k' \<and>
      (k' \<noteq> k \<or> im \<longrightarrow> PrefixLen k < PrefixLen k')"
  proof cases
    case 1
    from child_entries [OF assms(1) k i0 1] show ?thesis by simp
  next
    case 2
    then show ?thesis by simp
  next
    case 3
    from child_entries [OF assms(1) k i1 3] show ?thesis by simp
  qed
  then show "prefix (key_prefix k) (key_prefix k')" "PrefixLen k \<le> PrefixLen k'"
    "k' \<noteq> k \<or> im \<Longrightarrow> PrefixLen k < PrefixLen k'"
    by simp_all
qed

lemma Update_plain:
  assumes cfg: "config_ok t" and inv: "prefix_inv t [] (root t)"
    and upd: "Update t key v = Some (t', u)" and plain: "\<not> ancestor_case t key"
  shows "prefix_inv t' [] (root t')"
    and "set (entries_inorder (root t')) =
      {e \<in> set (entries_inorder (root t)). key_prefix (fst e) \<noteq> key_prefix key} \<union> {(key, v)}"
proof -
  let ?E = "set (entries_inorder (root t))"
  let ?kp = "key_prefix key"
  let ?bits = "key_bits (Data key)"
  have cfg': "prefix_inv t' [] n = prefix_inv t [] n" for n
    using Update_config [OF upd] by (intro prefix_inv_config) simp_all
  have p0: "prefix [] ?bits" "int (length ([] :: bool list)) \<le> PrefixLen key"
    if "isValidKey t key"
    using that by (simp_all add: isValidKey_def)
  have goal: "prefix_inv t [] (root t') \<and>
      set (entries_inorder (root t')) = {e \<in> ?E. key_prefix (fst e) \<noteq> ?kp} \<union> {(key, v)}"
    using upd
  proof (cases rule: Update_cases)
    case (empty slot m)
    note key = empty(1)
    from update_loop_ctx [OF cfg key inv p0 [OF key] empty(2)]
    have ctx: "prefix (slot_ctx (root t) slot []) ?bits"
      "int (length (slot_ctx (root t) slot [])) \<le> PrefixLen key"
      by auto
    let ?c = "slot_ctx (root t) slot []"
    have ckp: "prefix ?c ?kp"
      using ctx by (simp add: key_prefix_def prefix_take)
    let ?new = "newLpmTrieNode key v"
    have "prefix_inv t ?c ?new"
      using key ckp by (simp add: newLpmTrieNode_def)
    then have i: "prefix_inv t [] (storePointer (root t) slot ?new)"
      using inv empty(3) by (intro prefix_inv_storePointer)
    have "{e \<in> ?E. prefix ?c (key_prefix (fst e))} = {}"
      using entries_loadPointer [OF cfg inv empty(3)] empty(4) by simp
    then have none: "\<not> prefix ?c (key_prefix (fst e))" if "e \<in> ?E" for e
      using that by blast
    have "set (entries_inorder (storePointer (root t) slot ?new)) =
        {e \<in> ?E. \<not> prefix ?c (key_prefix (fst e))} \<union> {(key, v)}"
      using entries_storePointer [OF cfg inv empty(3), of ?new] by (simp add: newLpmTrieNode_def)
    also have "\<dots> = {e \<in> ?E. key_prefix (fst e) \<noteq> ?kp} \<union> {(key, v)}"
    proof -
      have "key_prefix (fst e) \<noteq> ?kp" if "e \<in> ?E" for e
        using none [OF that] ckp by auto
      then show ?thesis using none by auto
    qed
    finally show ?thesis using i empty(5) by simp
  next
    case (replace slot m k c0 c1 nv im)
    note key = replace(1)
    let ?node = "Node k c0 c1 nv im"
    from update_loop_ctx [OF cfg key inv p0 [OF key] replace(2)]
    have ctx: "prefix (slot_ctx (root t) slot []) ?bits"
      "int (length (slot_ctx (root t) slot [])) \<le> PrefixLen key"
      and m: "m = bitwise_match k key" "PrefixLen k \<noteq> m \<or> PrefixLen k = PrefixLen key"
      by auto
    let ?c = "slot_ctx (root t) slot []"
    have ckp: "prefix ?c ?kp"
      using ctx by (simp add: key_prefix_def prefix_take)
    have ni: "prefix_inv t ?c ?node"
      using prefix_inv_loadPointer [OF inv replace(3)] replace(4) by simp
    then have k: "isValidKey t k" by simp
    have len: "PrefixLen k = PrefixLen key" using m replace(5) by simp
    have "covers k key" using bitwise_match_covers [OF cfg k key] m(1) replace(5) by simp
    then have same: "key_prefix k = ?kp"
      using len by (simp add: covers_def first_bits_equal_def key_prefix_def)
    let ?new = "Node key c0 c1 v False"
    have "prefix_inv t ?c ?new"
      using ni key ckp same by simp
    then have i: "prefix_inv t [] (storePointer (root t) slot ?new)"
      using inv replace(3) by (intro prefix_inv_storePointer)
    have below: "{e \<in> ?E. prefix ?c (key_prefix (fst e))} = set (entries_inorder ?node)"
      using entries_loadPointer [OF cfg inv replace(3)] replace(4) by simp
    have kids: "key_prefix k' \<noteq> ?kp"
      if "(k', v') \<in> set (entries_inorder c0) \<union> set (entries_inorder c1)" for k' v'
    proof -
      from that have "(k', v') \<in> set (entries_inorder (Node k c0 c1 nv True))" by auto
      moreover have "prefix_inv t ?c (Node k c0 c1 nv True)" using ni by simp
      ultimately have "PrefixLen k < PrefixLen k'" "isValidKey t k'"
        using node_entries(3) [OF cfg, of ?c k c0 c1 nv True k' v']
          prefix_inv_entries [of t ?c "Node k c0 c1 nv True" k' v'] by simp_all
      then have "length (key_prefix k') \<noteq> length ?kp"
        using valid_key_lengths [OF cfg key] valid_key_lengths [OF cfg, of k'] len by simp
      then show ?thesis by auto
    qed
    have "set (entries_inorder (storePointer (root t) slot ?new)) =
        {e \<in> ?E. \<not> prefix ?c (key_prefix (fst e))} \<union>
        (set (entries_inorder c0) \<union> {(key, v)} \<union> set (entries_inorder c1))"
      using entries_storePointer [OF cfg inv replace(3), of ?new] by simp
    also have "\<dots> = {e \<in> ?E. key_prefix (fst e) \<noteq> ?kp} \<union> {(key, v)}"
    proof (intro set_eqI iffI)
      fix e
      assume "e \<in> {e \<in> ?E. \<not> prefix ?c (key_prefix (fst e))} \<union>
        (set (entries_inorder c0) \<union> {(key, v)} \<union> set (entries_inorder c1))"
      then consider "e \<in> ?E" "\<not> prefix ?c (key_prefix (fst e))"
        | "e \<in> set (entries_inorder c0) \<union> set (entries_inorder c1)" | "e = (key, v)"
        by auto
      then show "e \<in> {e \<in> ?E. key_prefix (fst e) \<noteq> ?kp} \<union> {(key, v)}"
      proof cases
        case 1
        then show ?thesis using ckp by auto
      next
        case 2
        then have "e \<in> set (entries_inorder ?node)" by auto
        then have "e \<in> ?E" using below by blast
        moreover have "key_prefix (fst e) \<noteq> ?kp" using kids [of "fst e" "snd e"] 2 by simp
        ultimately show ?thesis by simp
      next
        case 3
        then show ?thesis by simp
      qed
    next
      fix e
      assume "e \<in> {e \<in> ?E. key_prefix (fst e) \<noteq> ?kp} \<union> {(key, v)}"
      then consider "e \<in> ?E" "key_prefix (fst e) \<noteq> ?kp" | "e = (key, v)" by auto
      then show "e \<in> {e \<in> ?E. \<not> prefix ?c (key_prefix (fst e))} \<union>
        (set (entries_inorder c0) \<union> {(key, v)} \<union> set (entries_inorder c1))"
      proof cases
        case 1
        show ?thesis
        proof (cases "prefix ?c (key_prefix (fst e))")
          case True
          then have "e \<in> set (entries_inorder ?node)" using 1(1) below by blast
          then have "e \<in> set (entries_inorder c0) \<union> set (entries_inorder c1) \<or> fst e = k"
            by (auto split: if_splits)
          then show ?thesis using 1(2) same by auto
        next
          case False
          then show ?thesis using 1(1) by simp
        qed
      next
        case 2
        then show ?thesis by simp
      qed
    qed
    finally show ?thesis using i replace(6) by simp
  next
    case (branch slot m k c0 c1 nv im nextBit)
    note key = branch(1)
    let ?node = "Node k c0 c1 nv im"
    from update_loop_ctx [OF cfg key inv p0 [OF key] branch(2)]
    have ctx: "prefix (slot_ctx (root t) slot []) ?bits"
      "int (length (slot_ctx (root t) slot [])) \<le> PrefixLen key"
      and m: "m = bitwise_match k key"
      by auto
    let ?c = "slot_ctx (root t) slot []"
    have ckp: "prefix ?c ?kp"
      using ctx by (simp add: key_prefix_def prefix_take)
    have ni: "prefix_inv t ?c ?node"
      using prefix_inv_loadPointer [OF inv branch(3)] branch(4) by simp
    then have k: "isValidKey t k" and ck: "prefix ?c (key_prefix k)" by simp_all
    note lk = valid_key_lengths [OF cfg k] and lkey = valid_key_lengths [OF cfg key]
    have mk: "m < PrefixLen k" using m branch(5) bitwise_match_le(1) [of k key] by simp
    have "m \<noteq> PrefixLen key"
      using plain branch(2,5) by (simp add: ancestor_case_def)
    then have mkey: "m < PrefixLen key" using m bitwise_match_le(2) [of k key] by simp
    have m0: "0 \<le> m" using m bitwise_match_nonneg [of k key] lk lkey by simp
    let ?B = "bit_at key m"
    have nb: "nextBit = (if ?B then 1 else 0)"
      using extractBit_valid [OF cfg key m0, unfolded bit_at_def [symmetric]] mkey lkey branch(6)
      by (simp add: bit_at_def)
    have diff: "bit_at k m = (\<not> ?B)"
      using bitwise_match_differ [OF cfg k key] mk mkey m by simp
    have tk: "take (nat m) (key_bits (Data k)) = take (nat m) ?bits"
      using bitwise_match_take [OF cfg k key] m by simp
    let ?imkey = "key\<lparr>PrefixLen := m\<rparr>"
    have imv: "isValidKey t ?imkey"
      using key m0 mkey by (simp add: isValidKey_def)
    have imp: "key_prefix ?imkey = take (nat m) ?bits"
      by (simp add: key_prefix_def)
    have cm: "int (length ?c) \<le> m"
      using bitwise_match_common [OF cfg k key ck ctx] m by simp
    have cim: "prefix ?c (key_prefix ?imkey)"
      unfolding imp using ctx(1) cm by (intro prefix_take) simp_all
    let ?newnode = "newLpmTrieNode key v"
    have new_side: "prefix_inv t (key_prefix ?imkey @ [?B]) ?newnode"
    proof -
      have "prefix (take (nat m) ?bits @ [?bits ! nat m]) (take (nat (PrefixLen key)) ?bits)"
        using mkey m0 lkey by (intro take_snoc_prefix) simp_all
      then show ?thesis
        using key by (simp add: newLpmTrieNode_def imp key_prefix_def bit_at_def)
    qed
    have old_side: "prefix_inv t (key_prefix ?imkey @ [\<not> ?B]) ?node"
    proof -
      have "prefix (take (nat m) (key_bits (Data k)) @ [key_bits (Data k) ! nat m])
          (take (nat (PrefixLen k)) (key_bits (Data k)))"
        using mk m0 lk by (intro take_snoc_prefix) simp_all
      then have "prefix (key_prefix ?imkey @ [\<not> ?B]) (key_prefix k)"
        using diff by (simp add: imp tk key_prefix_def bit_at_def)
      then show ?thesis using ni by simp
    qed
    let ?im = "if nextBit \<noteq> 0 then Node ?imkey ?node ?newnode None True
               else Node ?imkey ?newnode ?node None True"
    have "prefix_inv t ?c ?im"
      using imv cim new_side old_side by (cases ?B) (simp_all add: nb)
    then have i: "prefix_inv t [] (storePointer (root t) slot ?im)"
      using inv branch(3) by (intro prefix_inv_storePointer)
    have below: "{e \<in> ?E. prefix ?c (key_prefix (fst e))} = set (entries_inorder ?node)"
      using entries_loadPointer [OF cfg inv branch(3)] branch(4) by simp
    have absent: "key_prefix (fst e) \<noteq> ?kp" if "e \<in> ?E" for e
    proof (cases "prefix ?c (key_prefix (fst e))")
      case False
      then show ?thesis using ckp by auto
    next
      case True
      then have "(fst e, snd e) \<in> set (entries_inorder ?node)" using that below by auto
      then have "prefix (key_prefix k) (key_prefix (fst e))"
        using node_entries(1) [OF cfg ni] by blast
      then have "key_prefix (fst e) ! nat m = key_prefix k ! nat m"
        using mk m0 lk by (auto simp add: prefix_def nth_append)
      moreover have "key_prefix k ! nat m = bit_at k m"
        using mk m0 by (simp add: key_prefix_def bit_at_def)
      moreover have "?kp ! nat m = ?B"
        using mkey m0 by (simp add: key_prefix_def bit_at_def)
      ultimately show ?thesis using diff by auto
    qed
    have "set (entries_inorder ?im) = set (entries_inorder ?node) \<union> {(key, v)}"
      by (auto simp add: newLpmTrieNode_def)
    then have "set (entries_inorder (storePointer (root t) slot ?im)) =
        {e \<in> ?E. \<not> prefix ?c (key_prefix (fst e))} \<union>
        ({e \<in> ?E. prefix ?c (key_prefix (fst e))} \<union> {(key, v)})"
      using entries_storePointer [OF cfg inv branch(3), of ?im] below by simp
    also have "\<dots> = {e \<in> ?E. key_prefix (fst e) \<noteq> ?kp} \<union> {(key, v)}"
      using absent by auto
    finally show ?thesis using i branch(7) by simp
  qed
  then show "prefix_inv t' [] (root t')"
    and "set (entries_inorder (root t')) =
      {e \<in> ?E. key_prefix (fst e) \<noteq> ?kp} \<union> {(key, v)}"
    by (simp_all add: cfg')
qed

subsection \<open>Lookup after a sequence of Update calls\<close>

lemma entries_unique:
  assumes cfg: "config_ok t"
  shows "prefix_inv t p n \<Longrightarrow> (k1, v1) \<in> set (entries_inorder n) \<Longrightarrow>
     (k2, v2) \<in> set (entries_inorder n) \<Longrightarrow> key_prefix k1 = key_prefix k2 \<Longrightarrow>
     (k1, v1) = (k2, v2)"
proof (induction n arbitrary: p)
  case nilNode
  then show ?case by simp
next
  case (Node k c0 c1 v im)
  from Node.prems(1) have k: "isValidKey t k"
    and i0: "prefix_inv t (key_prefix k @ [False]) c0"
    and i1: "prefix_inv t (key_prefix k @ [True]) c1"
    by simp_all
  have lk: "length (key_prefix k) = nat (PrefixLen k)" using valid_key_lengths(2) [OF cfg k] .
  have in0: "key_prefix a ! nat (PrefixLen k) = False \<and> length (key_prefix k) < length (key_prefix a)"
    if "(a, va) \<in> set (entries_inorder c0)" for a va
    using child_entries(2) [OF cfg k i0 that] prefix_snoc_nth [of "key_prefix k" False "key_prefix a"]
      prefix_length_le [of "key_prefix k @ [False]" "key_prefix a"] lk by auto
  have in1: "key_prefix a ! nat (PrefixLen k) = True \<and> length (key_prefix k) < length (key_prefix a)"
    if "(a, va) \<in> set (entries_inorder c1)" for a va
    using child_entries(2) [OF cfg k i1 that] prefix_snoc_nth [of "key_prefix k" True "key_prefix a"]
      prefix_length_le [of "key_prefix k @ [True]" "key_prefix a"] lk by auto
  from Node.prems(2) consider (l1) "(k1, v1) \<in> set (entries_inorder c0)"
    | (s1) "(k1, v1) = (k, v)" | (r1) "(k1, v1) \<in> set (entries_inorder c1)"
    by (auto split: if_splits)
  then show ?case
  proof cases
    case l1
    from Node.prems(3) consider (l2) "(k2, v2) \<in> set (entries_inorder c0)"
      | (s2) "(k2, v2) = (k, v)" | (r2) "(k2, v2) \<in> set (entries_inorder c1)"
      by (auto split: if_splits)
    then show ?thesis
    proof cases
      case l2
      show ?thesis using Node.IH(1) [OF i0 l1 l2 Node.prems(4)] .
    next
      case s2
      then show ?thesis using in0 [OF l1] Node.prems(4) by auto
    next
      case r2
      then show ?thesis using in0 [OF l1] in1 [OF r2] Node.prems(4) by auto
    qed
  next
    case s1
    from Node.prems(3) consider (l2) "(k2, v2) \<in> set (entries_inorder c0)"
      | (s2) "(k2, v2) = (k, v)" | (r2) "(k2, v2) \<in> set (entries_inorder c1)"
      by (auto split: if_splits)
    then show ?thesis
    proof cases
      case l2
      then show ?thesis using in0 [OF l2] s1 Node.prems(4) by auto
    next
      case s2
      then show ?thesis using s1 by simp
    next
      case r2
      then show ?thesis using in1 [OF r2] s1 Node.prems(4) by auto
    qed
  next
    case r1
    from Node.prems(3) consider (l2) "(k2, v2) \<in> set (entries_inorder c0)"
      | (s2) "(k2, v2) = (k, v)" | (r2) "(k2, v2) \<in> set (entries_inorder c1)"
      by (auto split: if_splits)
    then show ?thesis
    proof cases
      case l2
      then show ?thesis using in1 [OF r1] in0 [OF l2] Node.prems(4) by auto
    next
      case s2
      then show ?thesis using in1 [OF r1] Node.prems(4) by auto
    next
      case r2
      show ?thesis using Node.IH(2) [OF i1 r1 r2 Node.prems(4)] .
    qed
  qed
qed

lemma covers_same_prefix:
  assumes "config_ok t" "isValidKey t k" "isValidKey t k'" "isValidKey t q"
    and "key_prefix k = key_prefix k'"
  shows "covers k q \<longleftrightarrow> covers k' q" "PrefixLen k = PrefixLen k'"
proof -
  have "nat (PrefixLen k) = nat (PrefixLen k')"
    using valid_key_lengths(2) [OF assms(1,2)] valid_key_lengths(2) [OF assms(1,3)] assms(5)
    by simp
  then show l: "PrefixLen k = PrefixLen k'"
    using valid_key_lengths(3) [OF assms(1,2)] valid_key_lengths(3) [OF assms(1,3)] by simp
  show "covers k q \<longleftrightarrow> covers k' q"
    using covers_prefix [OF assms(1,2,4)] covers_prefix [OF assms(1,3,4)] assms(5) l by simp
qed

lemma covers_same_length:
  assumes "config_ok t" "isValidKey t k" "isValidKey t k'" "isValidKey t q"
    and "covers k q" "covers k' q" "PrefixLen k = PrefixLen k'"
  shows "key_prefix k = key_prefix k'"
proof -
  have "prefix (key_prefix k) (key_bits (Data q))" "prefix (key_prefix k') (key_bits (Data q))"
    using covers_prefix [OF assms(1,2,4)] covers_prefix [OF assms(1,3,4)] assms(5,6) by simp_all
  moreover have "length (key_prefix k) = length (key_prefix k')"
    using valid_key_lengths(2) [OF assms(1,2)] valid_key_lengths(2) [OF assms(1,3)] assms(7)
    by simp
  ultimately show ?thesis
    by (auto simp add: prefix_def)
qed

text \<open>One \<open>Update\<close> outside the ancestor case is one step of the longest match.\<close>

lemma is_best_step:
  assumes cfg: "config_ok t" and key: "isValidKey t k" and q: "isValidKey t q"
    and valid: "\<forall>(k', v') \<in> set (entries_inorder n). isValidKey t k'"
    and ents: "set (entries_inorder n') =
      {e \<in> set (entries_inorder n). key_prefix (fst e) \<noteq> key_prefix k} \<union> {(k, v)}"
    and best: "is_best n q best"
  shows "is_best n' q (match_step covers q (k, v) best)"
proof -
  let ?E = "set (entries_inorder n)" and ?E' = "set (entries_inorder n')"
  have kept: "e \<in> ?E'" if "e \<in> ?E" "covers (fst e) q" "\<not> covers k q \<or> PrefixLen (fst e) \<noteq> PrefixLen k" for e
  proof -
    have ve: "isValidKey t (fst e)" using valid that(1) by auto
    have "key_prefix (fst e) \<noteq> key_prefix k"
      using covers_same_prefix [OF cfg ve key q] that(2,3) by auto
    then show ?thesis using that(1) ents by simp
  qed
  have old: "e \<in> ?E \<or> e = (k, v)" if "e \<in> ?E'" for e
    using that ents by auto
  show ?thesis
  proof (cases "covers k q \<and> (case best of None \<Rightarrow> True | Some (k0, v0) \<Rightarrow> PrefixLen k0 \<le> PrefixLen k)")
    case True
    then have ms: "match_step covers q (k, v) best = Some (k, v)"
      by (auto simp add: match_step_def split: option.splits)
    have "PrefixLen k' \<le> PrefixLen k" if "(k', v') \<in> ?E'" "covers k' q" for k' v'
    proof (cases "(k', v') = (k, v)")
      case True
      then show ?thesis by simp
    next
      case False
      then have in_old: "(k', v') \<in> ?E" using old [OF that(1)] by auto
      show ?thesis
      proof (cases best)
        case None
        then show ?thesis using best in_old that(2) by (auto simp add: is_best_def)
      next
        case (Some a)
        obtain k0 v0 where a: "a = (k0, v0)" by (cases a)
        have "PrefixLen k' \<le> PrefixLen k0"
          using best in_old that(2) unfolding Some a by (auto simp add: is_best_def)
        then show ?thesis using True unfolding Some a by simp
      qed
    qed
    then show ?thesis
      using ms True ents by (auto simp add: is_best_def)
  next
    case False
    then have ms: "match_step covers q (k, v) best = best"
      by (auto simp add: match_step_def split: option.splits)
    show ?thesis
    proof (cases best)
      case None
      then have nc: "\<not> covers k q" using False by simp
      have "\<not> covers k' q" if "(k', v') \<in> ?E'" for k' v'
        using old [OF that] best nc unfolding None by (auto simp add: is_best_def)
      then show ?thesis using ms None by (auto simp add: is_best_def)
    next
      case (Some a)
      obtain k0 v0 where a: "a = (k0, v0)" by (cases a)
      from best have b: "(k0, v0) \<in> ?E" "covers k0 q"
        "\<And>k' v'. (k', v') \<in> ?E \<Longrightarrow> covers k' q \<Longrightarrow> PrefixLen k' \<le> PrefixLen k0"
        unfolding Some a by (auto simp add: is_best_def)
      have c: "\<not> covers k q \<or> PrefixLen k < PrefixLen k0"
        using False unfolding Some a by auto
      have "(k0, v0) \<in> ?E'"
        using kept [of "(k0, v0)"] b(1,2) c by auto
      moreover have "PrefixLen k' \<le> PrefixLen k0" if "(k', v') \<in> ?E'" "covers k' q" for k' v'
        using old [OF that(1)] that(2) b(3) c by auto
      ultimately show ?thesis
        using ms b(2) unfolding Some a by (auto simp add: is_best_def)
    qed
  qed
qed

lemma Lookup_is_best:
  assumes cfg: "config_ok t" and inv: "prefix_inv t [] (root t)"
    and br: "im_branching (root t)" and q: "isValidKey t q"
    and best: "is_best (root t) q best"
  shows "Lookup t q = Some (lookup_result best)"
proof -
  let ?E = "set (entries_inorder (root t))"
  obtain r where r: "lookup_loop t q (root t) nilNode = Some r"
    "if \<exists>(k, v) \<in> ?E. covers k q
     then \<exists>k c0 c1 v. r = Node k c0 c1 v False \<and> (k, v) \<in> ?E \<and> covers k q \<and>
            (\<forall>(k', v') \<in> ?E. covers k' q \<longrightarrow> PrefixLen k' \<le> PrefixLen k)
     else r = nilNode"
    using lookup_loop_best [OF cfg q inv br, of nilNode] by blast
  have look: "Lookup t q = Some (case r of nilNode \<Rightarrow> (None, False) | Node k c0 c1 v im \<Rightarrow> (v, True))"
    using q r(1) by (simp add: Lookup_def checkKey_def split: lpmTrieNode.splits)
  show ?thesis
  proof (cases "\<exists>(k, v) \<in> ?E. covers k q")
    case False
    then have "r = nilNode" using r(2) by simp
    moreover have "best = None"
      using best False by (cases best) (auto simp add: is_best_def)
    ultimately show ?thesis using look by (simp add: lookup_result_def)
  next
    case True
    with r(2) obtain k1 c0 c1 v1 where r1: "r = Node k1 c0 c1 v1 False" "(k1, v1) \<in> ?E"
      "covers k1 q" "\<forall>(k', v') \<in> ?E. covers k' q \<longrightarrow> PrefixLen k' \<le> PrefixLen k1"
      by auto
    from best True obtain k0 v0 where b: "best = Some (k0, v0)" "(k0, v0) \<in> ?E" "covers k0 q"
      "\<forall>(k', v') \<in> ?E. covers k' q \<longrightarrow> PrefixLen k' \<le> PrefixLen k0"
      by (cases best) (auto simp add: is_best_def)
    have len: "PrefixLen k1 = PrefixLen k0"
      using r1(2,3,4) b(2,3,4) by (auto intro: order.antisym)
    have v1: "isValidKey t k1" and v0: "isValidKey t k0"
      using prefix_inv_entries [OF inv r1(2)] prefix_inv_entries [OF inv b(2)] by simp_all
    have "key_prefix k1 = key_prefix k0"
      using covers_same_length [OF cfg v1 v0 q r1(3) b(3) len] .
    then have "(k1, v1) = (k0, v0)"
      using entries_unique [OF cfg inv r1(2) b(2)] by simp
    then show ?thesis using look r1(1) b(1) by (simp add: lookup_result_def)
  qed
qed

lemma updates_longest_match:
  "trie_ok t \<Longrightarrow> prefix_inv t [] (root t) \<Longrightarrow> isValidKey t q \<Longrightarrow> is_best (root t) q best \<Longrightarrow>
   \<forall>(k, v) \<in> set ins. isValidKey t k \<Longrightarrow> plain_calls t (update_calls ins) \<Longrightarrow>
   \<exists>t'. run_calls t (update_calls ins) = Some t' \<and> trie_ok t' \<and> prefix_inv t' [] (root t') \<and>
     isValidKey t' q \<and> is_best (root t') q (fold (match_step covers q) ins best)"
proof (induction ins arbitrary: t best)
  case Nil
  then show ?case by (simp add: update_calls_def)
next
  case (Cons e ins)
  obtain k v where e: "e = (k, v)" by (cases e)
  from Cons.prems(1) have cfg: "config_ok t" by (simp add: trie_ok_def)
  have key: "isValidKey t k" using Cons.prems(5) e by simp
  obtain t1 where t1: "apply_call t (CallUpdate k v) = Some t1" "trie_ok t1"
    "maxPrefixLen t1 = maxPrefixLen t" "keySize t1 = keySize t"
    using apply_call_ok [OF Cons.prems(1), of "CallUpdate k v"] key by auto
  then obtain u where upd: "Update t k v = Some (t1, u)" by auto
  have plain: "\<not> ancestor_case t k" "plain_calls t1 (update_calls ins)"
    using Cons.prems(6) t1(1) unfolding e by (auto simp add: update_calls_def)
  note up = Update_plain [OF cfg Cons.prems(2) upd plain(1)]
  have same: "isValidKey t1 = isValidKey t"
    using t1(3,4) by (intro isValidKey_config) simp_all
  have valid: "\<forall>(k', v') \<in> set (entries_inorder (root t)). isValidKey t k'"
    using prefix_inv_entries [OF Cons.prems(2)] by auto
  have best1: "is_best (root t1) q (match_step covers q (k, v) best)"
    using is_best_step [OF cfg key Cons.prems(3) valid up(2) Cons.prems(4)] .
  have "\<forall>(k, v) \<in> set ins. isValidKey t1 k" using Cons.prems(5) same by simp
  from Cons.IH [OF t1(2) up(1) _ best1 this plain(2)] Cons.prems(3) same
  obtain t' where "run_calls t1 (update_calls ins) = Some t'" "trie_ok t'"
    "prefix_inv t' [] (root t')" "isValidKey t' q"
    "is_best (root t') q (fold (match_step covers q) ins (match_step covers q (k, v) best))"
    by auto
  then show ?case using t1(1) unfolding e by (auto simp add: update_calls_def)
qed

text \<open>
  Claim C1, amended. For every finite sequence of \<open>Update\<close> calls with valid keys on a
  freshly constructed trie, none of which meets the ancestor case, and every valid query
  key, all calls return and \<open>Lookup\<close> returns the value last stored for the inserted key
  with the greatest prefix length among the inserted keys that are not longer than the
  query key and whose first \<open>PrefixLen\<close> bits equal the query key's; it returns not
  found if no inserted key qualifies.
\<close>

theorem Lookup_longest_match:
  assumes "New m = Inr t0" "\<forall>(k, v) \<in> set ins. isValidKey t0 k"
    and "plain_calls t0 (update_calls ins)" "isValidKey t0 q"
  shows "\<exists>t. run_calls t0 (update_calls ins) = Some t \<and>
           Lookup t q = Some (lookup_result (longest_match covers ins q))"
proof -
  have ok: "trie_ok t0" using assms(1) by (rule New_ok)
  have r: "root t0 = nilNode" using assms(1) by (auto simp add: New_def split: if_splits)
  have "prefix_inv t0 [] (root t0)" "is_best (root t0) q None"
    by (simp_all add: r is_best_def)
  from updates_longest_match [OF ok this(1) assms(4) this(2) assms(2,3)]
  obtain t where t: "run_calls t0 (update_calls ins) = Some t" "trie_ok t"
    "prefix_inv t [] (root t)" "isValidKey t q"
    "is_best (root t) q (longest_match covers ins q)"
    by (auto simp add: longest_match_def)
  have "Lookup t q = Some (lookup_result (longest_match covers ins q))"
    using t(2) by (intro Lookup_is_best t(3,4,5)) (simp_all add: trie_ok_def)
  then show ?thesis using t(1) by simp
qed

theorem Lookup_longest_match_witness:
  "\<exists>t. run_calls \<lparr>root = nilNode, size_cnt = 0, maxPrefixLen = 8, keySize = 1\<rparr>
          (update_calls [(\<lparr>PrefixLen = 0, Data = [0]\<rparr>, Some (1::nat)),
                         (\<lparr>PrefixLen = 4, Data = [160]\<rparr>, Some 2),
                         (\<lparr>PrefixLen = 8, Data = [32]\<rparr>, Some 3),
                         (\<lparr>PrefixLen = 4, Data = [175]\<rparr>, Some 4)]) = Some t \<and>
        Lookup t \<lparr>PrefixLen = 8, Data = [161]\<rparr> = Some (Some 4, True)"
proof -
  let ?t0 = "\<lparr>root = nilNode, size_cnt = 0, maxPrefixLen = 8, keySize = 1\<rparr> :: nat lpmTrie"
  let ?ins = "[(\<lparr>PrefixLen = 0, Data = [0]\<rparr>, Some (1::nat)),
               (\<lparr>PrefixLen = 4, Data = [160]\<rparr>, Some 2),
               (\<lparr>PrefixLen = 8, Data = [32]\<rparr>, Some 3),
               (\<lparr>PrefixLen = 4, Data = [175]\<rparr>, Some 4)]"
  let ?q = "\<lparr>PrefixLen = 8, Data = [161]\<rparr>"
  have new: "New 8 = Inr ?t0"
    by (simp add: New_def signed_divide_int_def signed_modulo_int_def)
  have valid: "\<forall>(k, v) \<in> set ?ins. isValidKey ?t0 k"
    by (simp add: isValidKey_def)
  have plain: "plain_calls ?t0 (update_calls ?ins)"
    by code_simp
  have q: "isValidKey ?t0 ?q" by (simp add: isValidKey_def)
  have res: "lookup_result (longest_match covers ?ins ?q) = (Some 4, True)"
    by code_simp
  from Lookup_longest_match [OF new valid plain q] show ?thesis
    unfolding res .
qed

subsection \<open>Range\<close>

lemma prefix_inv_weaken: "prefix_inv t p n \<Longrightarrow> prefix p' p \<Longrightarrow> prefix_inv t p' n"
  by (cases n) (auto intro: prefix_order.trans)

lemma prefix_inv_child:
  assumes "prefix_inv t p (Node k c0 c1 v im)"
  shows "prefix_inv t p c0" "prefix_inv t p c1"
proof -
  from assms have pk: "prefix p (key_prefix k)"
    and i0: "prefix_inv t (key_prefix k @ [False]) c0"
    and i1: "prefix_inv t (key_prefix k @ [True]) c1"
    by simp_all
  have "prefix p (key_prefix k @ [b])" for b using pk by (simp add: prefix_prefix)
  then show "prefix_inv t p c0" "prefix_inv t p c1"
    using i0 i1 prefix_inv_weaken by blast+
qed

lemma Delete_prefix_inv:
  assumes inv: "prefix_inv t [] (root t)" and del: "Delete t key = Some (t', d)"
  shows "prefix_inv t' [] (root t')"
proof -
  have cfg': "prefix_inv t' [] n = prefix_inv t [] n" for n
    using Delete_config [OF del] by (intro prefix_inv_config) simp_all
  from del have "prefix_inv t [] (root t')"
  proof (cases rule: Delete_cases)
    case (reject parent trim trim2 node m)
    then show ?thesis using inv by simp
  next
    case (accept parent trim trim2 m k c0 c1 nv)
    let ?c = "slot_ctx (root t) trim []"
    have node: "prefix_inv t ?c (Node k c0 c1 nv False)"
      using prefix_inv_loadPointer [OF inv accept(5)] accept(6) by simp
    have a: "prefix_inv t [] (storePointer (root t) trim (Node k c0 c1 None True))"
      using inv accept(5) node by (intro prefix_inv_storePointer) simp_all
    have b: "prefix_inv t [] (storePointer (root t) trim (if c0 \<noteq> nilNode then c0 else c1))"
      using inv accept(5) prefix_inv_child [OF node]
      by (intro prefix_inv_storePointer) simp_all
    have c: "prefix_inv t [] (storePointer (root t) trim2
        (if last trim = 0 then child1 parent else child0 parent))"
      if "parent \<noteq> nilNode"
    proof -
      note pn = that
      from pn have ne: "trim \<noteq> []" using accept(7) by auto
      then have t2: "trim = trim2 @ [last trim]" "parent = loadPointer (root t) trim2"
        using accept(8) by simp_all
      have sl2: "slot_in (root t) trim2"
        using accept(5) t2(1) slot_in_append [of "root t" trim2 "[last trim]"] by simp
      obtain pk p0 p1 pv pim where par: "parent = Node pk p0 p1 pv pim"
        using pn by (cases parent) auto
      have "prefix_inv t (slot_ctx (root t) trim2 []) parent"
        using prefix_inv_loadPointer [OF inv sl2] t2(2) by simp
      from prefix_inv_child [OF this [unfolded par]]
      have "prefix_inv t (slot_ctx (root t) trim2 [])
          (if last trim = 0 then child1 parent else child0 parent)"
        by (simp add: par)
      then show ?thesis using inv sl2 by (intro prefix_inv_storePointer)
    qed
    show ?thesis
      unfolding accept(9) using a b c by (auto split: if_splits)
  qed
  then show ?thesis by (simp add: cfg')
qed

lemma plain_calls_inv:
  "trie_ok t \<Longrightarrow> prefix_inv t [] (root t) \<Longrightarrow> \<forall>c \<in> set cs. isValidKey t (call_key c) \<Longrightarrow>
   plain_calls t cs \<Longrightarrow>
   \<exists>t'. run_calls t cs = Some t' \<and> trie_ok t' \<and> prefix_inv t' [] (root t')"
proof (induction cs arbitrary: t)
  case Nil
  then show ?case by simp
next
  case (Cons c cs)
  from Cons.prems(1) have cfg: "config_ok t" by (simp add: trie_ok_def)
  obtain t1 where t1: "apply_call t c = Some t1" "trie_ok t1"
    "maxPrefixLen t1 = maxPrefixLen t" "keySize t1 = keySize t"
    using apply_call_ok [OF Cons.prems(1), of c] Cons.prems(3) by auto
  have plain: "plain_calls t1 cs" using Cons.prems(4) t1(1) by simp
  have same: "isValidKey t1 = isValidKey t"
    using t1(3,4) by (intro isValidKey_config) simp_all
  have inv1: "prefix_inv t1 [] (root t1)"
  proof (cases c)
    case (CallUpdate k v)
    then obtain u where upd: "Update t k v = Some (t1, u)" using t1(1) by auto
    have "\<not> ancestor_case t k" using Cons.prems(4) CallUpdate by simp
    from Update_plain(1) [OF cfg Cons.prems(2) upd this] show ?thesis .
  next
    case (CallDelete k)
    then obtain d where del: "Delete t k = Some (t1, d)" using t1(1) by auto
    from Delete_prefix_inv [OF Cons.prems(2) del] show ?thesis .
  qed
  have "\<forall>c \<in> set cs. isValidKey t1 (call_key c)" using Cons.prems(3) same by simp
  from Cons.IH [OF t1(2) inv1 this plain] show ?case using t1(1) by simp
qed

text \<open>
  Claim C8, amended. For every trie state \<open>Range\<close> walks the tree in in-order
  (\<open>child[0]\<close> subtree, node, \<open>child[1]\<close> subtree) and calls the visitor on exactly the
  non-intermediate reachable nodes, in that order, until the visitor returns false; after
  that it makes no further call. In a trie built from a fresh one by \<open>Update\<close> and
  \<open>Delete\<close> calls with valid keys none of which meets the ancestor case, the visited
  keys are in the order \<open>inorder_before\<close> of their prefixes: ascending bit string order
  for two prefixes of which neither is a prefix of the other, a prefix coming after its
  extensions by 0 and before its extensions by 1.
\<close>

theorem Range_inorder:
  "traverse fn (root t) s = visit_all fn (entries_inorder (root t)) s \<and>
   Range_trie t fn s = snd (visit_all fn (entries_inorder (root t)) s) \<and>
   (New m = Inr t0 \<and> (\<forall>c \<in> set cs. isValidKey t0 (call_key c)) \<and> plain_calls t0 cs \<and>
    run_calls t0 cs = Some t \<longrightarrow>
      sorted_wrt inorder_before (map (\<lambda>(k, v). key_prefix k) (entries_inorder (root t)))) \<and>
   (\<forall>p q. \<not> prefix p q \<and> \<not> prefix q p \<longrightarrow> inorder_before p q = bits_less p q) \<and>
   (\<forall>p x. inorder_before (p @ False # x) p \<and> inorder_before p (p @ True # x))"
proof -
  have "sorted_wrt inorder_before (map (\<lambda>(k, v). key_prefix k) (entries_inorder (root t)))"
    if "New m = Inr t0" "\<forall>c \<in> set cs. isValidKey t0 (call_key c)" "plain_calls t0 cs"
      "run_calls t0 cs = Some t"
  proof -
    have ok: "trie_ok t0" using that(1) by (rule New_ok)
    have "root t0 = nilNode" using that(1) by (auto simp add: New_def split: if_splits)
    then have "prefix_inv t0 [] (root t0)" by simp
    from plain_calls_inv [OF ok this that(2,3)] that(4)
    have "prefix_inv t [] (root t)" by auto
    then show ?thesis by (rule prefix_inv_inorder)
  qed
  then show ?thesis
    by (auto simp add: traverse_visit_all Range_trie_def inorder_before_bits_less
        inorder_before_ext0 inorder_before_ext1)
qed

theorem Range_inorder_witness:
  "run_calls \<lparr>root = nilNode, size_cnt = 0, maxPrefixLen = 8, keySize = 1\<rparr>
     [CallUpdate \<lparr>PrefixLen = 4, Data = [160]\<rparr> (Some (1::nat)),
      CallUpdate \<lparr>PrefixLen = 8, Data = [32]\<rparr> (Some 2),
      CallUpdate \<lparr>PrefixLen = 8, Data = [175]\<rparr> (Some 3),
      CallUpdate \<lparr>PrefixLen = 8, Data = [161]\<rparr> (Some 4),
      CallDelete \<lparr>PrefixLen = 8, Data = [32]\<rparr>] =
     Some \<lparr>root = Node \<lparr>PrefixLen = 4, Data = [160]\<rparr>
              (Node \<lparr>PrefixLen = 8, Data = [161]\<rparr> nilNode nilNode (Some 4) False)
              (Node \<lparr>PrefixLen = 8, Data = [175]\<rparr> nilNode nilNode (Some 3) False)
              (Some 1) False,
           size_cnt = 3, maxPrefixLen = 8, keySize = 1\<rparr> \<and>
   Range_trie \<lparr>root = Node \<lparr>PrefixLen = 4, Data = [160]\<rparr>
              (Node \<lparr>PrefixLen = 8, Data = [161]\<rparr> nilNode nilNode (Some 4) False)
              (Node \<lparr>PrefixLen = 8, Data = [175]\<rparr> nilNode nilNode (Some 3) False)
              (Some (1::nat)) False,
           size_cnt = 3, maxPrefixLen = 8, keySize = 1\<rparr>
     (\<lambda>k v s. (PrefixLen k = 8, s @ [k])) [] =
     [\<lparr>PrefixLen = 8, Data = [161]\<rparr>, \<lparr>PrefixLen = 4, Data = [160]\<rparr>] \<and>
   sorted_wrt inorder_before
     [key_prefix \<lparr>PrefixLen = 8, Data = [161]\<rparr>, key_prefix \<lparr>PrefixLen = 4, Data = [160]\<rparr>,
      key_prefix \<lparr>PrefixLen = 8, Data = [175]\<rparr>]"
proof -
  let ?init = "\<lparr>root = nilNode, size_cnt = 0, maxPrefixLen = 8, keySize = 1\<rparr> :: nat lpmTrie"
  let ?cs = "[CallUpdate \<lparr>PrefixLen = 4, Data = [160]\<rparr> (Some (1::nat)),
      CallUpdate \<lparr>PrefixLen = 8, Data = [32]\<rparr> (Some 2),
      CallUpdate \<lparr>PrefixLen = 8, Data = [175]\<rparr> (Some 3),
      CallUpdate \<lparr>PrefixLen = 8, Data = [161]\<rparr> (Some 4),
      CallDelete \<lparr>PrefixLen = 8, Data = [32]\<rparr>]"
  let ?t = "\<lparr>root = Node \<lparr>PrefixLen = 4, Data = [160]\<rparr>
              (Node \<lparr>PrefixLen = 8, Data = [161]\<rparr> nilNode nilNode (Some 4) False)
              (Node \<lparr>PrefixLen = 8, Data = [175]\<rparr> nilNode nilNode (Some 3) False)
              (Some (1::nat)) False,
           size_cnt = 3, maxPrefixLen = 8, keySize = 1\<rparr>"
  have new: "New 8 = Inr ?init"
    by (simp add: New_def signed_divide_int_def signed_modulo_int_def)
  have valid: "\<forall>c \<in> set ?cs. isValidKey ?init (call_key c)"
    by (simp add: isValidKey_def)
  have plain: "plain_calls ?init ?cs" by code_simp
  have run: "run_calls ?init ?cs = Some ?t" by code_simp
  have vis: "snd (visit_all (\<lambda>k v s. (PrefixLen k = 8, s @ [k])) (entries_inorder (root ?t)) []) =
      [\<lparr>PrefixLen = 8, Data = [161]\<rparr>, \<lparr>PrefixLen = 4, Data = [160]\<rparr>]"
    by simp
  from Range_inorder [of "\<lambda>k v s. (PrefixLen k = 8, s @ [k])" ?t "[]" 8 ?init ?cs]
    new valid plain run vis
  show ?thesis by simp
qed

text \<open>
  Claim C8, as stated, does not hold of the code: \<open>Range\<close> visits a node after the
  subtree of its \<open>child[0]\<close>, so the key \<open>/0\<close> comes after the key \<open>00000001/8\<close>
  below it, although its bit string is the smaller one.
\<close>

theorem Range_not_ascending_counterexample:
  "run_calls \<lparr>root = nilNode, size_cnt = 0, maxPrefixLen = 8, keySize = 1\<rparr>
     [CallUpdate \<lparr>PrefixLen = 0, Data = [0]\<rparr> (Some (1::nat)),
      CallUpdate \<lparr>PrefixLen = 8, Data = [1]\<rparr> (Some 2)] =
     Some \<lparr>root = Node \<lparr>PrefixLen = 0, Data = [0]\<rparr>
              (Node \<lparr>PrefixLen = 8, Data = [1]\<rparr> nilNode nilNode (Some 2) False)
              nilNode (Some 1) False,
           size_cnt = 2, maxPrefixLen = 8, keySize = 1\<rparr> \<and>
   Range_trie \<lparr>root = Node \<lparr>PrefixLen = 0, Data = [0]\<rparr>
              (Node \<lparr>PrefixLen = 8, Data = [1]\<rparr> nilNode nilNode (Some (2::nat)) False)
              nilNode (Some 1) False,
           size_cnt = 2, maxPrefixLen = 8, keySize = 1\<rparr>
     (\<lambda>k v s. (True, s @ [k])) [] =
     [\<lparr>PrefixLen = 8, Data = [1]\<rparr>, \<lparr>PrefixLen = 0, Data = [0]\<rparr>] \<and>
   bits_less (key_prefix \<lparr>PrefixLen = 0, Data = [0]\<rparr>) (key_prefix \<lparr>PrefixLen = 8, Data = [1]\<rparr>) \<and>
   bits_less (key_bits (Data \<lparr>PrefixLen = 0, Data = [0]\<rparr>))
     (key_bits (Data \<lparr>PrefixLen = 8, Data = [1]\<rparr>))"
  by code_simp

subsection \<open>Update and Delete outside the ancestor case\<close>

lemma prefix_inv_prefixLen_above:
  assumes "config_ok t"
  shows "prefix_inv t p n \<Longrightarrow> l < int (length p) \<Longrightarrow> prefixLen_above l n"
proof (induction n arbitrary: p l)
  case nilNode
  then show ?case by simp
next
  case (Node k c0 c1 v im)
  from Node.prems(1) have k: "isValidKey t k" and pk: "prefix p (key_prefix k)"
    and i0: "prefix_inv t (key_prefix k @ [False]) c0"
    and i1: "prefix_inv t (key_prefix k @ [True]) c1"
    by simp_all
  note lk = valid_key_lengths [OF assms k]
  have "l < PrefixLen k"
    using prefix_length_le [OF pk] lk Node.prems(2) by simp
  moreover have "prefixLen_above (PrefixLen k) c0" "prefixLen_above (PrefixLen k) c1"
    using Node.IH(1) [OF i0] Node.IH(2) [OF i1] lk by simp_all
  ultimately show ?case by simp
qed

lemma prefix_inv_prefixLen_increasing:
  assumes "config_ok t" "prefix_inv t p n"
  shows "prefixLen_increasing n"
proof (cases n)
  case nilNode
  then show ?thesis by simp
next
  case (Node k c0 c1 v im)
  with assms(2) have k: "isValidKey t k"
    and i0: "prefix_inv t (key_prefix k @ [False]) c0"
    and i1: "prefix_inv t (key_prefix k @ [True]) c1"
    by simp_all
  note lk = valid_key_lengths [OF assms(1) k]
  show ?thesis
    using prefix_inv_prefixLen_above [OF assms(1) i0, of "PrefixLen k"]
      prefix_inv_prefixLen_above [OF assms(1) i1, of "PrefixLen k"] lk Node
    by simp
qed

text \<open>
  Outside the ancestor case the prefix lengths do increase along every path.
\<close>

lemma plain_calls_prefixLen_increasing:
  assumes "New m = Inr t0" "\<forall>c \<in> set cs. isValidKey t0 (call_key c)" "plain_calls t0 cs"
  shows "\<exists>t. run_calls t0 cs = Some t \<and> prefixLen_increasing (root t)"
proof -
  have ok: "trie_ok t0" using assms(1) by (rule New_ok)
  have "root t0 = nilNode" using assms(1) by (auto simp add: New_def split: if_splits)
  then have "prefix_inv t0 [] (root t0)" by simp
  from plain_calls_inv [OF ok this assms(2,3)]
  obtain t where t: "run_calls t0 cs = Some t" "trie_ok t" "prefix_inv t [] (root t)"
    by blast
  then have "prefixLen_increasing (root t)"
    by (intro prefix_inv_prefixLen_increasing [of t "[]"]) (simp_all add: trie_ok_def)
  then show ?thesis using t(1) by simp
qed

lemma delete_loop_ctx:
  assumes cfg: "config_ok t" and key: "isValidKey t key"
  shows "prefix_inv t p n \<Longrightarrow> prefix p (key_bits (Data key)) \<Longrightarrow>
     int (length p) \<le> PrefixLen key \<Longrightarrow>
     delete_loop t key n parent acc acc2 m0 = Some (par, trim, trim2, node, m) \<Longrightarrow>
     \<exists>rel. trim = acc @ rel \<and> slot_in n rel \<and> loadPointer n rel = node \<and>
       prefix (slot_ctx n rel p) (key_bits (Data key)) \<and>
       int (length (slot_ctx n rel p)) \<le> PrefixLen key \<and>
       (node \<noteq> nilNode \<longrightarrow> m = bitwise_match (nkey node) key \<and>
          (PrefixLen (nkey node) \<noteq> m \<or> PrefixLen (nkey node) = PrefixLen key))"
proof (induction n arbitrary: p parent acc acc2 m0)
  case nilNode
  then show ?case by simp
next
  case (Node k c0 c1 v im)
  let ?m = "bitwise_match k key"
  let ?n = "Node k c0 c1 v im"
  from Node.prems(1) have k: "isValidKey t k" by simp
  note step = delete_loop_Node [OF cfg key k, of c0 c1 v im parent acc acc2 m0]
  show ?case
  proof (cases "PrefixLen k \<noteq> ?m \<or> PrefixLen k = PrefixLen key")
    case True
    then have "trim = acc" "node = ?n" "m = ?m"
      using step Node.prems(4) by (simp_all add: Let_def)
    then show ?thesis using Node.prems(2,3) True by (intro exI [of _ "[]"]) simp
  next
    case False
    let ?b = "bit_at key (PrefixLen k)"
    let ?c = "if ?b then c1 else c0"
    let ?byte = "(if ?b then 1 else 0) :: byte"
    let ?p = "key_prefix k @ [?b]"
    have rec: "delete_loop t key ?c ?n (acc @ [?byte]) acc ?m = Some (par, trim, trim2, node, m)"
      using step Node.prems(4) False by (simp add: Let_def)
    have ctx: "prefix ?p (key_bits (Data key))" "int (length ?p) \<le> PrefixLen key"
      using descend_ctx [OF cfg key k] False by simp_all
    have inv: "prefix_inv t ?p ?c" using Node.prems(1) by simp
    have "\<exists>rel. trim = (acc @ [?byte]) @ rel \<and> slot_in ?c rel \<and> loadPointer ?c rel = node \<and>
       prefix (slot_ctx ?c rel ?p) (key_bits (Data key)) \<and>
       int (length (slot_ctx ?c rel ?p)) \<le> PrefixLen key \<and>
       (node \<noteq> nilNode \<longrightarrow> m = bitwise_match (nkey node) key \<and>
          (PrefixLen (nkey node) \<noteq> m \<or> PrefixLen (nkey node) = PrefixLen key))"
    proof (cases ?b)
      case True
      then show ?thesis
        using Node.IH(2) [of ?p ?n "acc @ [?byte]" acc ?m] inv ctx rec by simp
    next
      case False
      then show ?thesis
        using Node.IH(1) [of ?p ?n "acc @ [?byte]" acc ?m] inv ctx rec by simp
    qed
    then obtain rel where rel: "trim = (acc @ [?byte]) @ rel" "slot_in ?c rel"
      "loadPointer ?c rel = node" "prefix (slot_ctx ?c rel ?p) (key_bits (Data key))"
      "int (length (slot_ctx ?c rel ?p)) \<le> PrefixLen key"
      "node \<noteq> nilNode \<longrightarrow> m = bitwise_match (nkey node) key \<and>
          (PrefixLen (nkey node) \<noteq> m \<or> PrefixLen (nkey node) = PrefixLen key)"
      by blast
    have eq: "(if ?byte = 0 then c0 else c1) = ?c" "(?byte \<noteq> 0) = ?b" by simp_all
    show ?thesis
      using rel by (intro exI [of _ "?byte # rel"]) (simp add: eq del: One_nat_def)
  qed
qed

text \<open>The descent of \<open>Delete\<close> stops at the entry that has the prefix of the key.\<close>

lemma Delete_present:
  assumes cfg: "config_ok t" and inv: "prefix_inv t [] (root t)" and key: "isValidKey t key"
    and ent: "(k', v') \<in> set (entries_inorder (root t))" "key_prefix k' = key_prefix key"
    and loop: "delete_loop t key (root t) nilNode [] [] 0 = Some (parent, trim, trim2, node, m)"
  shows "\<exists>c0 c1. node = Node k' c0 c1 v' False \<and> PrefixLen k' = PrefixLen key \<and> PrefixLen k' = m"
proof -
  let ?bits = "key_bits (Data key)"
  let ?c = "slot_ctx (root t) trim []"
  have p0: "prefix [] ?bits" "int (length ([] :: bool list)) \<le> PrefixLen key"
    using key by (simp_all add: isValidKey_def)
  from delete_loop_ctx [OF cfg key inv p0 loop]
  have sl: "slot_in (root t) trim" "loadPointer (root t) trim = node"
    and ctx: "prefix ?c ?bits" "int (length ?c) \<le> PrefixLen key"
    and stop: "node \<noteq> nilNode \<Longrightarrow> m = bitwise_match (nkey node) key \<and>
          (PrefixLen (nkey node) \<noteq> m \<or> PrefixLen (nkey node) = PrefixLen key)"
    by auto
  have vk': "isValidKey t k'" using prefix_inv_entries [OF inv ent(1)] by simp
  have len: "PrefixLen k' = PrefixLen key"
    using covers_same_prefix(2) [OF cfg vk' key key ent(2)] .
  have "prefix ?c (key_prefix key)"
    using ctx by (simp add: key_prefix_def prefix_take)
  then have "(k', v') \<in> set (entries_inorder node)"
    using entries_loadPointer [OF cfg inv sl(1)] sl(2) ent by auto
  then obtain k c0 c1 nv im where node: "node = Node k c0 c1 nv im"
    by (cases node) auto
  have ni: "prefix_inv t ?c (Node k c0 c1 nv im)"
    using prefix_inv_loadPointer [OF inv sl(1)] sl(2) node by simp
  then have k: "isValidKey t k"
    and i0: "prefix_inv t (key_prefix k @ [False]) c0"
    and i1: "prefix_inv t (key_prefix k @ [True]) c1"
    by simp_all
  have in_node: "(k', v') \<in> set (entries_inorder (Node k c0 c1 nv im))"
    using \<open>(k', v') \<in> set (entries_inorder node)\<close> node by simp
  note ne = node_entries [OF cfg ni in_node]
  have "prefix (key_prefix k) ?bits"
    using ne(1) ent(2) by (simp add: key_prefix_def) (meson prefix_order.trans take_is_prefix)
  then have "covers k key"
    using covers_prefix [OF cfg k key] ne(2) len by simp
  then have m: "m = PrefixLen k"
    using stop bitwise_match_covers [OF cfg k key] node by simp
  then have lk: "PrefixLen k = PrefixLen key" using stop node by simp
  have same: "k' = k" "\<not> im" using ne(3) lk len by auto
  have "v' = nv"
  proof -
    from in_node same consider "(k, v') \<in> set (entries_inorder c0)" | "v' = nv"
      | "(k, v') \<in> set (entries_inorder c1)"
      by auto
    then show ?thesis
    proof cases
      case 1
      from child_entries(3) [OF cfg k i0 1] show ?thesis by simp
    next
      case 2
      then show ?thesis .
    next
      case 3
      from child_entries(3) [OF cfg k i1 3] show ?thesis by simp
    qed
  qed
  then show ?thesis using node same m lk by simp
qed

lemma sibling_entries_disjoint:
  assumes cfg: "config_ok t" and par: "prefix_inv t p (Node k c0 c1 v im)"
    and "e \<in> set (entries_inorder c0)" "e \<in> set (entries_inorder c1)"
  shows False
proof -
  from par have k: "isValidKey t k"
    and i0: "prefix_inv t (key_prefix k @ [False]) c0"
    and i1: "prefix_inv t (key_prefix k @ [True]) c1"
    by simp_all
  obtain a va where e: "e = (a, va)" by (cases e)
  have "prefix (key_prefix k @ [False]) (key_prefix a)" "prefix (key_prefix k @ [True]) (key_prefix a)"
    using prefix_inv_entries [OF i0, of a va] prefix_inv_entries [OF i1, of a va] assms(3,4) e
    by simp_all
  then show False
    using prefix_snoc_nth [of "key_prefix k" False "key_prefix a"]
      prefix_snoc_nth [of "key_prefix k" True "key_prefix a"] by simp
qed

text \<open>\<open>Delete\<close> of a key whose prefix is stored removes that entry and no other.\<close>

lemma Delete_entries:
  assumes cfg: "config_ok t" and inv: "prefix_inv t [] (root t)"
    and ent: "(k', v') \<in> set (entries_inorder (root t))" "key_prefix k' = key_prefix key"
    and del: "Delete t key = Some (t', d)"
  shows "d" and "set (entries_inorder (root t')) = set (entries_inorder (root t)) - {(k', v')}"
    and "size_cnt t' = size_cnt t - 1"
proof -
  let ?E = "set (entries_inorder (root t))"
  have goal: "d \<and> set (entries_inorder (root t')) = ?E - {(k', v')} \<and> size_cnt t' = size_cnt t - 1"
    using del
  proof (cases rule: Delete_cases)
    case (reject parent trim trim2 node m)
    from Delete_present [OF cfg inv reject(1) ent reject(2)] reject(3)
    show ?thesis by auto
  next
    case (accept parent trim trim2 m k c0 c1 nv)
    from Delete_present [OF cfg inv accept(1) ent accept(2)]
    have same: "k = k'" "nv = v'" by simp_all
    let ?node = "Node k c0 c1 nv False"
    let ?c = "slot_ctx (root t) trim []"
    have ni: "prefix_inv t ?c ?node"
      using prefix_inv_loadPointer [OF inv accept(5)] accept(6) by simp
    then have k: "isValidKey t k"
      and i0: "prefix_inv t (key_prefix k @ [False]) c0"
      and i1: "prefix_inv t (key_prefix k @ [True]) c1"
      by simp_all
    have below: "{e \<in> ?E. prefix ?c (key_prefix (fst e))} = set (entries_inorder ?node)"
      using entries_loadPointer [OF cfg inv accept(5)] accept(6) by simp
    have node_ents: "set (entries_inorder ?node) =
        set (entries_inorder c0) \<union> {(k', v')} \<union> set (entries_inorder c1)"
      using same by auto
    have not_kid: "(k', v') \<notin> set (entries_inorder c0) \<union> set (entries_inorder c1)"
      using child_entries(3) [OF cfg k i0, of k' v'] child_entries(3) [OF cfg k i1, of k' v'] same
      by auto
    have keep_kids: "set (entries_inorder (storePointer (root t) trim new)) = ?E - {(k', v')}"
      if "set (entries_inorder new) = set (entries_inorder c0) \<union> set (entries_inorder c1)" for new
    proof -
      have "set (entries_inorder (storePointer (root t) trim new)) =
          {e \<in> ?E. \<not> prefix ?c (key_prefix (fst e))} \<union>
          (set (entries_inorder c0) \<union> set (entries_inorder c1))"
        using entries_storePointer [OF cfg inv accept(5), of new] that by simp
      also have "\<dots> = ?E - {(k', v')}"
        using below node_ents not_kid by blast
      finally show ?thesis .
    qed
    have "set (entries_inorder (root t')) = ?E - {(k', v')}"
    proof (cases "c0 \<noteq> nilNode \<and> c1 \<noteq> nilNode")
      case True
      then show ?thesis
        using keep_kids [of "Node k c0 c1 None True"] accept(9) by simp
    next
      case nb: False
      show ?thesis
      proof (cases "parent \<noteq> nilNode \<and> isIm parent \<and> c0 = nilNode \<and> c1 = nilNode")
        case False
        have "set (entries_inorder (if c0 \<noteq> nilNode then c0 else c1)) =
            set (entries_inorder c0) \<union> set (entries_inorder c1)"
          using nb by auto
        then show ?thesis
          using keep_kids [of "if c0 \<noteq> nilNode then c0 else c1"] accept(9) nb False by simp
      next
        case True
        then have ne: "trim \<noteq> []" using accept(7) by auto
        then have t2: "trim = trim2 @ [last trim]" "parent = loadPointer (root t) trim2"
          using accept(8) by simp_all
        obtain pk p0 p1 pv where par: "parent = Node pk p0 p1 pv True"
          using True by (cases parent) auto
        have sl2: "slot_in (root t) trim2"
          using accept(5) t2(1) slot_in_append [of "root t" trim2 "[last trim]"] by simp
        let ?c2 = "slot_ctx (root t) trim2 []"
        have pi: "prefix_inv t ?c2 (Node pk p0 p1 pv True)"
          using prefix_inv_loadPointer [OF inv sl2] t2(2) par by simp
        have "loadPointer parent [last trim] = ?node"
          using accept(6) t2 loadPointer_append [of "root t" trim2 "[last trim]"] by simp
        then have ch: "(if last trim = 0 then p0 else p1) = ?node"
          by (simp add: par)
        let ?sib = "if last trim = 0 then child1 parent else child0 parent"
        have leaf: "set (entries_inorder ?node) = {(k', v')}"
          using True same by simp
        have pe: "set (entries_inorder parent) = {(k', v')} \<union> set (entries_inorder ?sib)"
          using ch leaf by (auto simp add: par split: if_splits)
        have nsib: "(k', v') \<notin> set (entries_inorder ?sib)"
        proof
          assume a: "(k', v') \<in> set (entries_inorder ?sib)"
          have "(k', v') \<in> set (entries_inorder (if last trim = 0 then p0 else p1))"
            using ch leaf by simp
          then show False
            using a sibling_entries_disjoint [OF cfg pi, of "(k', v')"]
            by (auto simp add: par split: if_splits)
        qed
        have below2: "{e \<in> ?E. prefix ?c2 (key_prefix (fst e))} = set (entries_inorder parent)"
          using entries_loadPointer [OF cfg inv sl2] t2(2) by simp
        have "set (entries_inorder (storePointer (root t) trim2 ?sib)) =
            {e \<in> ?E. \<not> prefix ?c2 (key_prefix (fst e))} \<union> set (entries_inorder ?sib)"
          using entries_storePointer [OF cfg inv sl2, of ?sib] by simp
        also have "\<dots> = ?E - {(k', v')}"
          using below2 pe nsib by blast
        finally show ?thesis using accept(9) True nb by simp
      qed
    qed
    then show ?thesis using accept(9,10) by simp
  qed
  then show "d" and "set (entries_inorder (root t')) = ?E - {(k', v')}"
    and "size_cnt t' = size_cnt t - 1"
    by simp_all
qed

text \<open>The result of \<open>Lookup\<close> depends on the set of entries only.\<close>

lemma is_best_exists:
  assumes cfg: "config_ok t" and inv: "prefix_inv t [] (root t)"
    and br: "im_branching (root t)" and q: "isValidKey t q"
  shows "\<exists>best. is_best (root t) q best"
proof -
  let ?E = "set (entries_inorder (root t))"
  obtain r where r:
    "if \<exists>(k, v) \<in> ?E. covers k q
     then \<exists>k c0 c1 v. r = Node k c0 c1 v False \<and> (k, v) \<in> ?E \<and> covers k q \<and>
            (\<forall>(k', v') \<in> ?E. covers k' q \<longrightarrow> PrefixLen k' \<le> PrefixLen k)
     else r = nilNode"
    using lookup_loop_best [OF cfg q inv br, of nilNode] by blast
  show ?thesis
  proof (cases "\<exists>(k, v) \<in> ?E. covers k q")
    case False
    then have "is_best (root t) q None" by (auto simp add: is_best_def)
    then show ?thesis ..
  next
    case True
    with r obtain k1 v1 where "(k1, v1) \<in> ?E" "covers k1 q"
      "\<forall>(k', v') \<in> ?E. covers k' q \<longrightarrow> PrefixLen k' \<le> PrefixLen k1"
      by auto
    then have "is_best (root t) q (Some (k1, v1))" by (simp add: is_best_def)
    then show ?thesis ..
  qed
qed

lemma Lookup_same_entries:
  assumes "trie_ok t" "prefix_inv t [] (root t)" "trie_ok t'" "prefix_inv t' [] (root t')"
    and "isValidKey t q" "isValidKey t' q"
    and "set (entries_inorder (root t')) = set (entries_inorder (root t))"
  shows "Lookup t' q = Lookup t q"
proof -
  from assms(1,3) have c: "config_ok t" "im_branching (root t)" "config_ok t'" "im_branching (root t')"
    by (simp_all add: trie_ok_def)
  obtain best where b: "is_best (root t) q best"
    using is_best_exists [OF c(1) assms(2) c(2) assms(5)] by blast
  have b': "is_best (root t') q best"
    using b unfolding is_best_def assms(7) .
  show ?thesis
    using Lookup_is_best [OF c(1) assms(2) c(2) assms(5) b]
      Lookup_is_best [OF c(3) assms(4) c(4) assms(6) b'] by simp
qed

text \<open>
  Outside the ancestor case, \<open>Update\<close> of a key whose prefix is not stored followed by
  \<open>Delete\<close> of it restores the size and every result of \<open>Lookup\<close>.
\<close>

lemma Update_Delete_inverse_plain:
  assumes ok: "trie_ok t" and inv: "prefix_inv t [] (root t)" and key: "isValidKey t key"
    and plain: "\<not> ancestor_case t key"
    and absent: "\<forall>(k', v') \<in> set (entries_inorder (root t)). key_prefix k' \<noteq> key_prefix key"
  shows "\<exists>t1 u t2. Update t key v = Some (t1, u) \<and> Delete t1 key = Some (t2, True) \<and>
     Size t2 = Size t \<and> (\<forall>q. isValidKey t q \<longrightarrow> Lookup t2 q = Lookup t q)"
proof -
  let ?E = "set (entries_inorder (root t))"
  from ok have cfg: "config_ok t" by (simp add: trie_ok_def)
  obtain t1 where t1: "apply_call t (CallUpdate key v) = Some t1" "trie_ok t1"
    "maxPrefixLen t1 = maxPrefixLen t" "keySize t1 = keySize t"
    using apply_call_ok [OF ok, of "CallUpdate key v"] key by auto
  then obtain u where upd: "Update t key v = Some (t1, u)" by auto
  note up = Update_plain [OF cfg inv upd plain]
  have e1: "set (entries_inorder (root t1)) = ?E \<union> {(key, v)}"
    using up(2) absent by auto
  have notin: "(key, v) \<notin> ?E" using absent by auto
  have same1: "isValidKey t1 = isValidKey t"
    using t1(3,4) by (intro isValidKey_config) simp_all
  have cfg1: "config_ok t1" using t1(2) by (simp add: trie_ok_def)
  obtain t2 where t2: "apply_call t1 (CallDelete key) = Some t2" "trie_ok t2"
    "maxPrefixLen t2 = maxPrefixLen t1" "keySize t2 = keySize t1"
    using apply_call_ok [OF t1(2), of "CallDelete key"] key same1 by auto
  then obtain d where del: "Delete t1 key = Some (t2, d)" by auto
  have in1: "(key, v) \<in> set (entries_inorder (root t1))" using e1 by simp
  note de = Delete_entries [OF cfg1 up(1) in1 refl del]
  have e2: "set (entries_inorder (root t2)) = ?E"
    using de(2) e1 notin by auto
  have inv2: "prefix_inv t2 [] (root t2)" using Delete_prefix_inv [OF up(1) del] .
  have same2: "isValidKey t2 = isValidKey t"
    using t2(3,4) t1(3,4) by (intro isValidKey_config) simp_all
  have s1: "size_cnt t1 = size_cnt t + 1"
    using upd
  proof (cases rule: Update_cases)
    case (empty slot m)
    then show ?thesis by simp
  next
    case (replace slot m k c0 c1 nv im)
    have "im"
    proof (rule ccontr)
      assume "\<not> im"
      then have "(k, nv) \<in> set (entries_inorder (loadPointer (root t) slot))"
        using replace(4) by simp
      then have "(k, nv) \<in> ?E"
        using entries_loadPointer [OF cfg inv replace(3)] by auto
      moreover have "key_prefix k = key_prefix key"
      proof -
        have p0: "prefix [] (key_bits (Data key))" "int (length ([] :: bool list)) \<le> PrefixLen key"
          using key by (simp_all add: isValidKey_def)
        from update_loop_ctx [OF cfg key inv p0 replace(2)]
        have m: "m = bitwise_match k key" "PrefixLen k \<noteq> m \<or> PrefixLen k = PrefixLen key"
          by auto
        have vk: "isValidKey t k" using prefix_inv_entries [OF inv \<open>(k, nv) \<in> ?E\<close>] by simp
        have "covers k key" using bitwise_match_covers [OF cfg vk key] m(1) replace(5) by simp
        moreover have "PrefixLen k = PrefixLen key" using m replace(5) by simp
        ultimately show ?thesis
          by (simp add: covers_def first_bits_equal_def key_prefix_def)
      qed
      ultimately show False using absent by auto
    qed
    then show ?thesis using replace by simp
  next
    case (branch slot m k c0 c1 nv im nextBit)
    then show ?thesis by simp
  qed
  have "Size t2 = Size t" using de(3) s1 by (simp add: Size_def)
  moreover have "Lookup t2 q = Lookup t q" if "isValidKey t q" for q
    using that same2 by (intro Lookup_same_entries ok inv t2(2) inv2 e2) simp_all
  ultimately show ?thesis using upd del de(1) by auto
qed

end
